theory Spec2Isabelle
  imports Complex_Main "HOL-Library.Sublist" "HOL-Library.Log_Nat"
begin

section \<open>JavaScript values and strings\<close>

text \<open>
  A JavaScript string is a sequence of UTF-16 code units; a code unit is modelled as a
  natural number (nothing below depends on the bound 65535). \<open>js\<close> embeds a literal of
  the source, whose characters are all below 256, one code unit per character.
\<close>

type_synonym jsstring = "nat list"

definition js :: "string \<Rightarrow> jsstring" where
  "js s = map of_char s"

text \<open>
  The values a chart record is built from: what \<open>JSON.parse\<close> produces, plus
  \<open>undefined\<close> (the value of a missing property) and \<open>NaN\<close>. A number of a chart
  record is given as the rational it denotes (every finite double is one): the resolver
  tests and copies the numbers of a chart and never computes with them. The numbers that
  \<open>parseFloat\<close> computes are rounded to doubles; they have a type of their own in the
  section on \<open>parseReasoningEntry\<close>. An object lists its properties; the first binding
  of a key is the property's value.
\<close>

datatype jsval =
    JUndefined
  | JNull
  | JBool bool
  | JNaN
  | JNum rat
  | JStr jsstring
  | JArr "jsval list"
  | JObj "(jsstring \<times> jsval) list"

fun truthy :: "jsval \<Rightarrow> bool" where
  "truthy JUndefined = False"
| "truthy JNull = False"
| "truthy (JBool b) = b"
| "truthy JNaN = False"
| "truthy (JNum q) = (q \<noteq> 0)"
| "truthy (JStr s) = (s \<noteq> [])"
| "truthy (JArr xs) = True"
| "truthy (JObj kvs) = True"

fun typeof :: "jsval \<Rightarrow> jsstring" where
  "typeof JUndefined = js ''undefined''"
| "typeof JNull = js ''object''"
| "typeof (JBool b) = js ''boolean''"
| "typeof JNaN = js ''number''"
| "typeof (JNum q) = js ''number''"
| "typeof (JStr s) = js ''string''"
| "typeof (JArr xs) = js ''object''"
| "typeof (JObj kvs) = js ''object''"

definition nullish :: "jsval \<Rightarrow> bool" where
  "nullish v = (v = JUndefined \<or> v = JNull)"

subsection \<open>String primitives\<close>

text \<open>White space and line terminators: what \<open>\s\<close> matches and \<open>trim\<close> strips.\<close>

definition is_space :: "nat \<Rightarrow> bool" where
  "is_space c =
     (c \<in> {9, 10, 11, 12, 13, 32, 160, 5760, 8232, 8233, 8239, 8287, 12288, 65279}
      \<or> (8192 \<le> c \<and> c \<le> 8202))"

definition is_digit :: "nat \<Rightarrow> bool" where
  "is_digit c = (48 \<le> c \<and> c \<le> 57)"

definition trim :: "jsstring \<Rightarrow> jsstring" where
  "trim s = rev (dropWhile is_space (rev (dropWhile is_space s)))"

text \<open>\<open>s.split(sep)\<close> for a separator of one code unit (\<open>','\<close> and \<open>'/'\<close> in the source).\<close>

fun split_on :: "nat \<Rightarrow> jsstring \<Rightarrow> jsstring list" where
  "split_on sep [] = [[]]"
| "split_on sep (c # cs) =
     (if c = sep then [] # split_on sep cs
      else (case split_on sep cs of [] \<Rightarrow> [[c]] | p # ps \<Rightarrow> (c # p) # ps))"

text \<open>\<open>s.includes(t)\<close>: \<open>t\<close> occurs in \<open>s\<close> as a contiguous run.\<close>

fun str_includes :: "jsstring \<Rightarrow> jsstring \<Rightarrow> bool" where
  "str_includes [] t = (t = [])"
| "str_includes (c # cs) t = (prefix t (c # cs) \<or> str_includes cs t)"

section \<open>Regular expressions\<close>

text \<open>
  The fragment of the pattern language the source uses: literal characters, the classes
  \<open>\d\<close>, \<open>\s\<close>, \<open>[...]\<close> and \<open>[^...]\<close>, sequencing, the greedy quantifiers \<open>?\<close>, \<open>*\<close>
  and \<open>+\<close>, one capture group, and \<open>$\<close> (end of input, no \<open>m\<close> flag anywhere).
\<close>

datatype cls = Chr nat | Digit | Space | OneOf "nat list" | NoneOf "nat list"

datatype re = Eps | Sym cls | Cat re re | Opt re | Star re | Group re | Eos

definition Plus :: "re \<Rightarrow> re" where
  "Plus r = Cat r (Star r)"

fun lit :: "jsstring \<Rightarrow> re" where
  "lit [] = Eps"
| "lit (c # cs) = Cat (Sym (Chr c)) (lit cs)"

text \<open>
  Under the \<open>i\<close> flag both sides are canonicalised. Every pattern character of the source
  is an ASCII character or U+263D, so only the ASCII letters are folded: a code unit from
  128 on never canonicalises to an ASCII one, and nothing else maps to U+263D.
\<close>

definition canon :: "nat \<Rightarrow> nat" where
  "canon c = (if 97 \<le> c \<and> c \<le> 122 then c - 32 else c)"

fun in_cls :: "bool \<Rightarrow> cls \<Rightarrow> nat \<Rightarrow> bool" where
  "in_cls ic (Chr a) c = (if ic then canon a = canon c else a = c)"
| "in_cls ic Digit c = is_digit c"
| "in_cls ic Space c = is_space c"
| "in_cls ic (OneOf as) c = (if ic then canon c \<in> canon ` set as else c \<in> set as)"
| "in_cls ic (NoneOf as) c = (if ic then canon c \<notin> canon ` set as else c \<notin> set as)"

text \<open>
  A backtracking matcher. A state is the input still to read and the text of capture
  group 1. \<open>ms ic r st\<close> lists the states in which \<open>r\<close> can end when started in \<open>st\<close>,
  in the order a backtracking engine tries them (a greedy quantifier takes one more
  iteration before it stops), so the head of the list is the match the engine reports.
  An iteration of \<open>*\<close> that reads nothing is rejected.
\<close>

type_synonym mstate = "jsstring \<times> jsstring option"

function ms :: "bool \<Rightarrow> re \<Rightarrow> mstate \<Rightarrow> mstate list" where
  "ms ic Eps st = [st]"
| "ms ic (Sym k) st =
     (case fst st of [] \<Rightarrow> [] | c # cs \<Rightarrow> if in_cls ic k c then [(cs, snd st)] else [])"
| "ms ic (Cat a b) st = concat (map (ms ic b) (ms ic a st))"
| "ms ic (Opt a) st = ms ic a st @ [st]"
| "ms ic (Star a) st =
     concat (map (\<lambda>st'. if length (fst st') < length (fst st) then ms ic (Star a) st' else [])
                 (ms ic a st)) @ [st]"
| "ms ic (Group a) st =
     map (\<lambda>st'. (fst st', Some (take (length (fst st) - length (fst st')) (fst st))))
         (ms ic a st)"
| "ms ic Eos st = (if fst st = [] then [st] else [])"
  by pat_completeness auto
termination
  by (relation "measures [\<lambda>(ic, r, st). size r, \<lambda>(ic, r, st). length (fst st)]") auto

text \<open>
  \<open>s.match(r)\<close> for a pattern without the \<open>g\<close> flag: the first start index, from 0 up to
  the length of \<open>s\<close>, at which the pattern matches; the result is that index and capture
  group 1.
\<close>

fun search :: "bool \<Rightarrow> re \<Rightarrow> nat \<Rightarrow> jsstring \<Rightarrow> (nat \<times> jsstring option) option" where
  "search ic r i [] =
     (case ms ic r ([], None) of st # _ \<Rightarrow> Some (i, snd st) | [] \<Rightarrow> None)"
| "search ic r i (c # cs) =
     (case ms ic r (c # cs, None) of
        st # _ \<Rightarrow> Some (i, snd st)
      | [] \<Rightarrow> search ic r (Suc i) cs)"

definition str_match :: "re \<Rightarrow> jsstring \<Rightarrow> (nat \<times> jsstring option) option" where
  "str_match r s = search False r 0 s"

text \<open>
  \<open>s.replace(r, rep)\<close> for a pattern with the \<open>g\<close> flag and a replacement text without
  \<open>$\<close>: scan from the left; at a match write \<open>rep\<close> and go on after it, elsewhere copy
  one code unit. After an empty match the next code unit is copied.
\<close>

function replace_g :: "bool \<Rightarrow> re \<Rightarrow> jsstring \<Rightarrow> jsstring \<Rightarrow> jsstring" where
  "replace_g ic r rep [] = (case ms ic r ([], None) of st # _ \<Rightarrow> rep | [] \<Rightarrow> [])"
| "replace_g ic r rep (c # cs) =
     (case ms ic r (c # cs, None) of
        st # _ \<Rightarrow>
          if length (fst st) < length (c # cs) then rep @ replace_g ic r rep (fst st)
          else rep @ c # replace_g ic r rep cs
      | [] \<Rightarrow> c # replace_g ic r rep cs)"
  by pat_completeness auto
termination
  by (relation "measure (\<lambda>(ic, r, rep, s). length s)") auto

section \<open>cleanMoonText\<close>

text \<open>The six patterns of \<open>cleanMoonText\<close>, in the order they are applied.\<close>

definition void_moon_re :: re where
  "void_moon_re =
     Cat (lit (js ''Void''))
      (Cat (Opt (Cat (Sym (Chr 32)) (Sym (Chr 9789))))
       (Cat (lit (js '' Moon:''))
        (Cat (Star (Sym Space))
         (Cat (Opt (Cat (Sym (Chr 9789)) (Star (Sym Space))))
          (lit (js ''Moon''))))))"

definition glyph_moon_re :: re where
  "glyph_moon_re = Cat (Sym (Chr 9789)) (lit (js '' Moon''))"

definition moon_moon_re :: re where
  "moon_moon_re = lit (js ''Moon Moon'')"

definition trailing_moon_re :: re where
  "trailing_moon_re =
     Cat (Star (Sym Space))
      (Cat (Sym (Chr 40))
       (Cat (Star (Sym (NoneOf [41])))
        (Cat (lit (js ''moon''))
         (Cat (Star (Sym (NoneOf [41])))
          (Cat (Sym (Chr 41))
           (Cat (Star (Sym Space)) Eos))))))"

definition colon_makes_re :: re where
  "colon_makes_re = Cat (Sym (Chr 58)) (Cat (Plus (Sym Space)) (lit (js ''makes'')))"

definition spaces_re :: re where
  "spaces_re = Plus (Sym Space)"

definition cleanMoonText :: "jsval \<Rightarrow> jsval" where
  "cleanMoonText text =
     (if \<not> truthy text \<or> typeof text \<noteq> js ''string'' then text
      else case text of
        JStr s \<Rightarrow>
          JStr (trim
            (replace_g False spaces_re (js '' '')
            (replace_g False colon_makes_re (js '': makes'')
            (replace_g True trailing_moon_re []
            (replace_g False moon_moon_re (js ''Moon'')
            (replace_g False glyph_moon_re (js ''Moon'')
            (replace_g True void_moon_re (js ''Void Moon:'') s)))))))
      | _ \<Rightarrow> text)"

section \<open>parseReasoningEntry\<close>

text \<open>
  The Number values \<open>parseFloat\<close> can return for decimal text: a finite double, given by
  the rational it denotes, or an infinity. \<open>NaN\<close> is the \<open>None\<close> of \<open>parseFloat\<close> below, and
  \<open>-0\<close> is identified with \<open>0\<close> (both are falsy, and \<open>|| 0\<close> replaces either by \<open>0\<close>).
\<close>

datatype number = Finite rat | PosInfinity | NegInfinity

record entry =
  rule :: jsstring
  weight :: number

text \<open>
  The Number value for a rational (ECMA-262, 6.1.6.1): the double nearest to it, ties
  going to the even significand, and an infinity from \<open>2 ^ 1024\<close> on. \<open>round_even\<close> rounds
  to the nearest integer, ties to even; \<open>ilog2 q\<close> is the exponent \<open>e\<close> with
  \<open>2 ^ e \<le> q < 2 ^ (e + 1)\<close> of a positive \<open>q\<close>; a double has 53 significant bits and
  no exponent below -1074, so \<open>nearest_double\<close> rounds \<open>q\<close> to a multiple of
  \<open>2 ^ max (e - 52) (- 1074)\<close>. This is the correctly rounded result, which the engines
  compute for a decimal of any length (ECMA-262 leaves them a choice in the digits after
  the twentieth significant one).
\<close>

definition round_even :: "rat \<Rightarrow> int" where
  "round_even x =
     (let f = \<lfloor>x\<rfloor>; d = x - of_int f
      in if d < 1 / 2 then f
         else if 1 / 2 < d then f + 1
         else if even f then f else f + 1)"

definition ilog2 :: "rat \<Rightarrow> int" where
  "ilog2 q = (if 1 \<le> q then bitlen \<lfloor>q\<rfloor> - 1 else - bitlen (\<lceil>1 / q\<rceil> - 1))"

definition nearest_double :: "rat \<Rightarrow> rat" where
  "nearest_double q =
     (let e = max (ilog2 q - 52) (- 1074)
      in of_int (round_even (q / 2 powi e)) * 2 powi e)"

definition to_number :: "rat \<Rightarrow> number" where
  "to_number x =
     (if x = 0 then Finite 0
      else let v = nearest_double \<bar>x\<bar>
           in if 2 ^ 1024 \<le> v then (if 0 < x then PosInfinity else NegInfinity)
              else Finite (if 0 < x then v else - v))"

text \<open>The numeric token both patterns capture: \<open>[-+]?\d+(?:\.\d+)?\<close>.\<close>

definition number_re :: re where
  "number_re =
     Cat (Opt (Sym (OneOf [45, 43])))
      (Cat (Plus (Sym Digit))
       (Opt (Cat (Sym (Chr 46)) (Plus (Sym Digit)))))"

text \<open>\<open>/\(([-+]?\d+(?:\.\d+)?)\s*%?\)\s*$/\<close>\<close>

definition paren_re :: re where
  "paren_re =
     Cat (Sym (Chr 40))
      (Cat (Group number_re)
       (Cat (Star (Sym Space))
        (Cat (Opt (Sym (Chr 37)))
         (Cat (Sym (Chr 41))
          (Cat (Star (Sym Space)) Eos)))))"

text \<open>\<open>/([-+]?\d+(?:\.\d+)?)\s*%?\s*$/\<close>\<close>

definition signed_re :: re where
  "signed_re =
     Cat (Group number_re)
      (Cat (Star (Sym Space))
       (Cat (Opt (Sym (Chr 37)))
        (Cat (Star (Sym Space)) Eos)))"

text \<open>
  \<open>parseFloat\<close> on decimal text: leading white space, an optional sign, digits, an
  optional point and digits; the longest such prefix is read, the result is the Number
  value for the decimal it denotes, and \<open>None\<close> stands for \<open>NaN\<close>. Exponents and the word
  \<open>Infinity\<close> are left out: a token captured by \<open>number_re\<close> has neither.
\<close>

definition digits_val :: "jsstring \<Rightarrow> nat" where
  "digits_val ds = foldl (\<lambda>n c. 10 * n + (c - 48)) 0 ds"

definition parseFloat :: "jsstring \<Rightarrow> number option" where
  "parseFloat s =
     (let t = dropWhile is_space s;
          neg = (case t of [] \<Rightarrow> False | c # cs \<Rightarrow> c = 45);
          u = (case t of [] \<Rightarrow> [] | c # cs \<Rightarrow> if c = 45 \<or> c = 43 then cs else t);
          ip = takeWhile is_digit u;
          r = dropWhile is_digit u;
          fp = (case r of [] \<Rightarrow> [] | c # cs \<Rightarrow> if c = 46 then takeWhile is_digit cs else [])
      in if ip = [] \<and> fp = [] then None
         else Some (to_number ((if neg then - 1 else 1) *
                    (of_nat (digits_val ip) + of_nat (digits_val fp) / 10 ^ length fp))))"

text \<open>
  \<open>parseFloat(m[1]) || 0\<close>: an absent group reads as \<open>undefined\<close>, which parses to \<open>NaN\<close>;
  \<open>NaN\<close> and zero are falsy, an infinity is not.
\<close>

definition weight_of :: "jsstring option \<Rightarrow> number" where
  "weight_of g =
     (case g of
        None \<Rightarrow> Finite 0
      | Some t \<Rightarrow>
          (case parseFloat t of
             None \<Rightarrow> Finite 0
           | Some q \<Rightarrow> if q \<noteq> Finite 0 then q else Finite 0))"

definition parseReasoningEntry :: "jsval \<Rightarrow> entry" where
  "parseReasoningEntry text =
     (if typeof text \<noteq> js ''string'' then \<lparr>rule = [], weight = Finite 0\<rparr>
      else case text of
        JStr s \<Rightarrow>
          (case str_match paren_re s of
             Some (i, g) \<Rightarrow> \<lparr>rule = trim (take i s), weight = weight_of g\<rparr>
           | None \<Rightarrow>
               (case str_match signed_re s of
                  Some (i, g) \<Rightarrow> \<lparr>rule = trim (take i s), weight = weight_of g\<rparr>
                | None \<Rightarrow> \<lparr>rule = trim s, weight = Finite 0\<rparr>))
      | _ \<Rightarrow> \<lparr>rule = [], weight = Finite 0\<rparr>)"

section \<open>getLocationData\<close>

subsection \<open>Expressions that may raise\<close>

datatype error = TypeError

definition bindE :: "error + 'a \<Rightarrow> ('a \<Rightarrow> error + 'b) \<Rightarrow> error + 'b" where
  "bindE m f = (case m of Inl e \<Rightarrow> Inl e | Inr x \<Rightarrow> f x)"

text \<open>
  Reading a property of a value that is neither \<open>undefined\<close> nor \<open>null\<close>. The names the
  source reads are data fields only (none is an index, \<open>length\<close> or a prototype member),
  so an array or a primitive has none of them.
\<close>

fun get_prop :: "jsval \<Rightarrow> jsstring \<Rightarrow> jsval" where
  "get_prop (JObj kvs) k = (case map_of kvs k of None \<Rightarrow> JUndefined | Some v \<Rightarrow> v)"
| "get_prop v k = JUndefined"

text \<open>
  A member chain \<open>v.a?.b?.c\<close>: \<open>Dot\<close> is \<open>.\<close> and raises on \<open>undefined\<close> and \<open>null\<close>,
  \<open>QDot\<close> is \<open>?.\<close> and ends the whole chain with \<open>undefined\<close> there.
\<close>

datatype step = Dot string | QDot string

definition fld :: "jsval \<Rightarrow> string \<Rightarrow> jsval" where
  "fld v k = get_prop v (js k)"

fun path :: "jsval \<Rightarrow> step list \<Rightarrow> error + jsval" where
  "path v [] = Inr v"
| "path v (Dot k # ks) = (if nullish v then Inl TypeError else path (fld v k) ks)"
| "path v (QDot k # ks) = (if nullish v then Inr JUndefined else path (fld v k) ks)"

text \<open>\<open>a && b\<close>, \<open>a || b\<close>, \<open>a !== 'text'\<close>, \<open>typeof a === 'text'\<close> and \<open>if (c) t else e\<close>.\<close>

definition andE :: "error + jsval \<Rightarrow> error + jsval \<Rightarrow> error + jsval" where
  "andE a b = bindE a (\<lambda>x. if truthy x then b else Inr x)"

definition orE :: "error + jsval \<Rightarrow> error + jsval \<Rightarrow> error + jsval" where
  "orE a b = bindE a (\<lambda>x. if truthy x then Inr x else b)"

definition neE :: "error + jsval \<Rightarrow> string \<Rightarrow> error + jsval" where
  "neE a t = bindE a (\<lambda>x. Inr (JBool (x \<noteq> JStr (js t))))"

definition typeofE :: "error + jsval \<Rightarrow> string \<Rightarrow> error + jsval" where
  "typeofE a t = bindE a (\<lambda>x. Inr (JBool (typeof x = js t)))"

definition ifE :: "error + jsval \<Rightarrow> error + 'a \<Rightarrow> error + 'a \<Rightarrow> error + 'a" where
  "ifE c t e = bindE c (\<lambda>x. if truthy x then t else e)"

text \<open>
  Method calls. \<open>split\<close> exists on strings only; \<open>includes\<close> on strings and on arrays
  (where it looks for an element equal to the argument). Calling a method the receiver
  does not have raises.
\<close>

definition splitE :: "jsval \<Rightarrow> nat \<Rightarrow> error + jsstring list" where
  "splitE v sep = (case v of JStr s \<Rightarrow> Inr (split_on sep s) | _ \<Rightarrow> Inl TypeError)"

definition includesE :: "jsval \<Rightarrow> jsstring \<Rightarrow> error + jsval" where
  "includesE v t =
     (case v of
        JStr s \<Rightarrow> Inr (JBool (str_includes s t))
      | JArr xs \<Rightarrow> Inr (JBool (JStr t \<in> set xs))
      | _ \<Rightarrow> Inl TypeError)"

text \<open>\<open>parts[i]\<close> on an array of strings.\<close>

definition elem :: "jsstring list \<Rightarrow> nat \<Rightarrow> jsval" where
  "elem parts i = (if i < length parts then JStr (parts ! i) else JUndefined)"

subsection \<open>The resolver\<close>

text \<open>
  In the source \<open>getLocationData\<close> takes no argument: it is a closure inside
  \<open>buildChartPayload\<close> and reads that function's \<open>chart\<close>. Here the chart is its
  argument. Each \<open>if\<close> of the source is a guard and a branch below, named in the order of
  the source and marked with the lines it stands for.
\<close>

record location =
  city :: jsval
  country :: jsval
  lat :: jsval
  lon :: jsval

text \<open>An object literal: the four field expressions are evaluated in order.\<close>

definition mkloc ::
  "error + jsval \<Rightarrow> error + jsval \<Rightarrow> error + jsval \<Rightarrow> error + jsval \<Rightarrow> error + location" where
  "mkloc c k la lo =
     bindE c (\<lambda>c'. bindE k (\<lambda>k'. bindE la (\<lambda>la'. bindE lo (\<lambda>lo'.
       Inr \<lparr>city = c', country = k', lat = la', lon = lo'\<rparr>))))"

text \<open>\<open>locationStr.split(',').map(s => s.trim())\<close> and the record built from it.\<close>

definition comma_parts :: "jsval \<Rightarrow> error + jsstring list" where
  "comma_parts v = bindE (splitE v 44) (\<lambda>parts. Inr (map trim parts))"

text \<open>Lines 11 to 18.\<close>

definition guard1 :: "jsval \<Rightarrow> error + jsval" where
  "guard1 chart =
     andE (path chart [Dot ''chart_data'', QDot ''location'', QDot ''city''])
          (neE (path chart [Dot ''chart_data'', QDot ''location'', QDot ''city'']) ''Unknown'')"

definition branch1 :: "jsval \<Rightarrow> error + location" where
  "branch1 chart =
     mkloc (path chart [Dot ''chart_data'', Dot ''location'', Dot ''city''])
           (orE (path chart [Dot ''chart_data'', Dot ''location'', Dot ''country''])
                (Inr (JStr (js ''Unknown''))))
           (orE (path chart [Dot ''chart_data'', Dot ''location'', Dot ''latitude''])
                (orE (path chart [Dot ''chart_data'', Dot ''location'', Dot ''lat''])
                     (Inr (JNum 0))))
           (orE (path chart [Dot ''chart_data'', Dot ''location'', Dot ''longitude''])
                (orE (path chart [Dot ''chart_data'', Dot ''location'', Dot ''lon''])
                     (Inr (JNum 0))))"

text \<open>Lines 20 to 28.\<close>

definition guard2 :: "jsval \<Rightarrow> error + jsval" where
  "guard2 chart =
     andE (path chart [Dot ''chart_data'', QDot ''timezone_info'', QDot ''location''])
          (typeofE (path chart [Dot ''chart_data'', Dot ''timezone_info'', Dot ''location''])
                   ''object'')"

definition branch2 :: "jsval \<Rightarrow> error + location" where
  "branch2 chart =
     bindE (path chart [Dot ''chart_data'', Dot ''timezone_info'', Dot ''location'']) (\<lambda>loc.
       mkloc (orE (path loc [Dot ''city''])
                  (orE (path loc [Dot ''name'']) (Inr (JStr (js ''Unknown'')))))
             (orE (path loc [Dot ''country'']) (Inr (JStr (js ''Unknown''))))
             (orE (path loc [Dot ''latitude''])
                  (orE (path loc [Dot ''lat'']) (Inr (JNum 0))))
             (orE (path loc [Dot ''longitude''])
                  (orE (path loc [Dot ''lon'']) (Inr (JNum 0)))))"

text \<open>Lines 30 to 41.\<close>

definition guard3 :: "jsval \<Rightarrow> error + jsval" where
  "guard3 chart =
     andE (andE (path chart [Dot ''chart_data'', QDot ''timezone_info'', QDot ''location_name''])
                (neE (path chart [Dot ''chart_data'', Dot ''timezone_info'', Dot ''location_name''])
                     ''Unknown location''))
          (neE (path chart [Dot ''chart_data'', Dot ''timezone_info'', Dot ''location_name''])
               ''Unknown'')"

definition branch3 :: "jsval \<Rightarrow> error + location" where
  "branch3 chart =
     bindE (path chart [Dot ''chart_data'', Dot ''timezone_info'', Dot ''location_name''])
       (\<lambda>locationStr.
     bindE (comma_parts locationStr) (\<lambda>parts.
       mkloc (orE (Inr (elem parts 0)) (Inr locationStr))
             (orE (Inr (elem parts 1)) (Inr (JStr (js ''Unknown''))))
             (orE (path chart [Dot ''chart_data'', Dot ''timezone_info'', QDot ''coordinates'',
                               QDot ''latitude''])
                  (Inr (JNum 0)))
             (orE (path chart [Dot ''chart_data'', Dot ''timezone_info'', QDot ''coordinates'',
                               QDot ''longitude''])
                  (Inr (JNum 0)))))"

text \<open>Lines 43 to 52.\<close>

definition guard4 :: "jsval \<Rightarrow> error + jsval" where
  "guard4 chart =
     andE (andE (path chart [Dot ''location_name''])
                (neE (path chart [Dot ''location_name'']) ''Unknown location''))
          (neE (path chart [Dot ''location_name'']) ''Unknown'')"

definition branch4 :: "jsval \<Rightarrow> error + location" where
  "branch4 chart =
     bindE (path chart [Dot ''location_name'']) (\<lambda>locationStr.
     bindE (comma_parts locationStr) (\<lambda>parts.
       mkloc (orE (Inr (elem parts 0)) (Inr locationStr))
             (orE (Inr (elem parts 1)) (Inr (JStr (js ''Unknown''))))
             (orE (path chart [Dot ''chart_data'', QDot ''timezone_info'', QDot ''coordinates'',
                               QDot ''latitude''])
                  (Inr (JNum 0)))
             (orE (path chart [Dot ''chart_data'', QDot ''timezone_info'', QDot ''coordinates'',
                               QDot ''longitude''])
                  (Inr (JNum 0)))))"

text \<open>Lines 54 to 61.\<close>

definition guard5 :: "jsval \<Rightarrow> error + jsval" where
  "guard5 chart =
     andE (path chart [Dot ''location'']) (typeofE (path chart [Dot ''location'']) ''object'')"

definition branch5 :: "jsval \<Rightarrow> error + location" where
  "branch5 chart =
     mkloc (orE (path chart [Dot ''location'', Dot ''city'']) (Inr (JStr (js ''Unknown''))))
           (orE (path chart [Dot ''location'', Dot ''country'']) (Inr (JStr (js ''Unknown''))))
           (orE (path chart [Dot ''location'', Dot ''latitude''])
                (orE (path chart [Dot ''location'', Dot ''lat'']) (Inr (JNum 0))))
           (orE (path chart [Dot ''location'', Dot ''longitude''])
                (orE (path chart [Dot ''location'', Dot ''lon'']) (Inr (JNum 0))))"

text \<open>Lines 63 to 71.\<close>

definition guard6 :: "jsval \<Rightarrow> error + jsval" where
  "guard6 chart =
     andE (typeofE (path chart [Dot ''location'']) ''string'')
          (neE (path chart [Dot ''location'']) ''Unknown'')"

definition branch6 :: "jsval \<Rightarrow> error + location" where
  "branch6 chart =
     bindE (path chart [Dot ''location'']) (\<lambda>loc.
     bindE (comma_parts loc) (\<lambda>parts.
       mkloc (orE (Inr (elem parts 0)) (path chart [Dot ''location'']))
             (orE (Inr (elem parts 1)) (Inr (JStr (js ''Unknown''))))
             (Inr (JNum 0))
             (Inr (JNum 0))))"

text \<open>Lines 73 to 83.\<close>

definition tz :: "jsval \<Rightarrow> error + jsval" where
  "tz chart = path chart [Dot ''chart_data'', QDot ''timezone_info'', QDot ''timezone'']"

definition guard7 :: "jsval \<Rightarrow> error + jsval" where
  "guard7 chart =
     andE (andE (tz chart) (neE (tz chart) ''UTC''))
          (bindE (tz chart) (\<lambda>t. includesE t (js ''/'')))"

definition branch7 :: "jsval \<Rightarrow> error + location" where
  "branch7 chart =
     bindE (tz chart) (\<lambda>t.
     bindE (splitE t 47) (\<lambda>parts.
     bindE (case parts of [] \<Rightarrow> Inl TypeError
            | _ \<Rightarrow> Inr (JStr (replace_g False (Sym (Chr 95)) (js '' '') (last parts)))) (\<lambda>city.
       mkloc (Inr city)
             (orE (Inr (elem parts 0)) (Inr (JStr (js ''Unknown''))))
             (Inr (JNum 0))
             (Inr (JNum 0)))))"

text \<open>Lines 85 to 90.\<close>

definition unknown_location :: location where
  "unknown_location =
     \<lparr>city = JStr (js ''Unknown''), country = JStr (js ''Unknown''), lat = JNum 0, lon = JNum 0\<rparr>"

definition getLocationData :: "jsval \<Rightarrow> error + location" where
  "getLocationData chart =
     ifE (guard1 chart) (branch1 chart)
    (ifE (guard2 chart) (branch2 chart)
    (ifE (guard3 chart) (branch3 chart)
    (ifE (guard4 chart) (branch4 chart)
    (ifE (guard5 chart) (branch5 chart)
    (ifE (guard6 chart) (branch6 chart)
    (ifE (guard7 chart) (branch7 chart)
         (Inr unknown_location)))))))"

section \<open>Vocabulary of the properties\<close>

text \<open>
  A guard \<open>holds\<close> when it evaluates, without raising, to a truthy value, and \<open>fails\<close>
  when it evaluates to a falsy one; a guard that raises does neither.
\<close>

definition holds :: "error + jsval \<Rightarrow> bool" where
  "holds g = (case g of Inl e \<Rightarrow> False | Inr x \<Rightarrow> truthy x)"

definition fails :: "error + jsval \<Rightarrow> bool" where
  "fails g = (case g of Inl e \<Rightarrow> False | Inr x \<Rightarrow> \<not> truthy x)"

definition no_branch :: "jsval \<Rightarrow> bool" where
  "no_branch chart =
     (fails (guard1 chart) \<and> fails (guard2 chart) \<and> fails (guard3 chart) \<and> fails (guard4 chart)
      \<and> fails (guard5 chart) \<and> fails (guard6 chart) \<and> fails (guard7 chart))"

text \<open>A field of the result is present when it is neither \<open>undefined\<close> nor \<open>null\<close>.\<close>

definition present :: "jsval \<Rightarrow> bool" where
  "present v = (v \<noteq> JUndefined \<and> v \<noteq> JNull)"

definition populated :: "location \<Rightarrow> bool" where
  "populated r = (present (city r) \<and> present (country r) \<and> present (lat r) \<and> present (lon r))"

text \<open>The value of \<open>a || b\<close> and of \<open>v?.k\<close>, for operands that are already values.\<close>

definition js_or :: "jsval \<Rightarrow> jsval \<Rightarrow> jsval" where
  "js_or a b = (if truthy a then a else b)"

definition qfld :: "jsval \<Rightarrow> string \<Rightarrow> jsval" where
  "qfld v k = (if nullish v then JUndefined else fld v k)"

abbreviation chart_data :: "jsval \<Rightarrow> jsval" where
  "chart_data chart \<equiv> fld chart ''chart_data''"

abbreviation timezone_info :: "jsval \<Rightarrow> jsval" where
  "timezone_info chart \<equiv> qfld (chart_data chart) ''timezone_info''"

text \<open>An expression whose value is a string whenever it is truthy.\<close>

definition text_or_falsy :: "error + jsval \<Rightarrow> bool" where
  "text_or_falsy m =
     (case m of Inl e \<Rightarrow> False | Inr x \<Rightarrow> truthy x \<longrightarrow> typeof x = js ''string'')"

text \<open>
  The segments of a text around a separator: the part before its first occurrence, the
  part between the first and the second (none when the separator does not occur), and
  the part after its last occurrence.
\<close>

definition segment_first :: "nat \<Rightarrow> jsstring \<Rightarrow> jsstring" where
  "segment_first sep s = takeWhile (\<lambda>x. x \<noteq> sep) s"

definition segment_second :: "nat \<Rightarrow> jsstring \<Rightarrow> jsstring option" where
  "segment_second sep s =
     (case dropWhile (\<lambda>x. x \<noteq> sep) s of [] \<Rightarrow> None
      | x # r \<Rightarrow> Some (takeWhile (\<lambda>x. x \<noteq> sep) r))"

definition segment_last :: "nat \<Rightarrow> jsstring \<Rightarrow> jsstring" where
  "segment_last sep s = rev (takeWhile (\<lambda>x. x \<noteq> sep) (rev s))"

text \<open>
  City and country read from a free-text location name: the trimmed first segment, or
  the whole name as it stands when that segment is empty; the trimmed second segment,
  or \<open>Unknown\<close> when there is none or it is empty.
\<close>

definition name_city :: "jsstring \<Rightarrow> jsval" where
  "name_city s =
     JStr (if trim (segment_first 44 s) = [] then s else trim (segment_first 44 s))"

definition name_country :: "jsstring \<Rightarrow> jsval" where
  "name_country s =
     (case segment_second 44 s of
        None \<Rightarrow> JStr (js ''Unknown'')
      | Some p \<Rightarrow> if trim p = [] then JStr (js ''Unknown'') else JStr (trim p))"

text \<open>
  The grammar of the two patterns of \<open>parseReasoningEntry\<close>, in words. A number is an
  optional sign, one or more digits and an optional fraction (a point and one or more
  digits); \<open>number_text sg ip fp\<close> writes one from its sign, integer digits and
  fraction digits, and \<open>number_value\<close> is the decimal value it denotes.
\<close>

definition digits :: "jsstring \<Rightarrow> bool" where
  "digits ds = (ds \<noteq> [] \<and> (\<forall>c\<in>set ds. is_digit c))"

definition is_sign :: "jsstring \<Rightarrow> bool" where
  "is_sign sg = (sg = [] \<or> sg = [45] \<or> sg = [43])"

definition number_text :: "jsstring \<Rightarrow> jsstring \<Rightarrow> jsstring \<Rightarrow> jsstring" where
  "number_text sg ip fp = sg @ ip @ (if fp = [] then [] else 46 # fp)"

definition number_value :: "jsstring \<Rightarrow> jsstring \<Rightarrow> jsstring \<Rightarrow> rat" where
  "number_value sg ip fp =
     (if sg = [45] then - 1 else 1) *
     (of_nat (digits_val ip) + of_nat (digits_val fp) / 10 ^ length fp)"

definition is_number :: "jsstring \<Rightarrow> bool" where
  "is_number t =
     (\<exists>sg ip fp. t = number_text sg ip fp \<and> is_sign sg \<and> digits ip \<and> (\<forall>c\<in>set fp. is_digit c))"

text \<open>
  What may follow the number: white space, an optional percent sign and white space up to
  the end of the string (\<open>is_tail\<close>), and in the parenthesized form also the closing
  parenthesis before the final white space (\<open>is_ptail\<close>).
\<close>

definition spaces :: "jsstring \<Rightarrow> bool" where
  "spaces w = (\<forall>c\<in>set w. is_space c)"

definition is_pct :: "jsstring \<Rightarrow> bool" where
  "is_pct p = (p = [] \<or> p = [37])"

definition is_tail :: "jsstring \<Rightarrow> bool" where
  "is_tail u = (\<exists>w1 p w2. u = w1 @ p @ w2 \<and> spaces w1 \<and> is_pct p \<and> spaces w2)"

definition is_ptail :: "jsstring \<Rightarrow> bool" where
  "is_ptail u = (\<exists>w1 p w2. u = w1 @ p @ 41 # w2 \<and> spaces w1 \<and> is_pct p \<and> spaces w2)"

text \<open>
  A string carries a bare annotation when it ends with a number and a tail, and a
  parenthesized one when it ends with an opening parenthesis, a number and a
  parenthesized tail. A number that ends a prefix of the string is the longest one when
  no number starts further left and ends at the same place.
\<close>

definition bare_annotation :: "jsstring \<Rightarrow> bool" where
  "bare_annotation s = (\<exists>pre t u. s = pre @ t @ u \<and> is_number t \<and> is_tail u)"

definition paren_annotation :: "jsstring \<Rightarrow> bool" where
  "paren_annotation s = (\<exists>pre t u. s = pre @ 40 # t @ u \<and> is_number t \<and> is_ptail u)"

definition longest_number :: "jsstring \<Rightarrow> jsstring \<Rightarrow> bool" where
  "longest_number pre t = (\<forall>q. q \<noteq> [] \<and> suffix q pre \<longrightarrow> \<not> is_number (q @ t))"

text \<open>
  What "trimmed" means, said without the function: \<open>r\<close> is \<open>s\<close> trimmed when \<open>s\<close> is \<open>r\<close>
  between two runs of white space and \<open>r\<close> neither starts nor ends with white space.
\<close>

definition trimming :: "jsstring \<Rightarrow> jsstring \<Rightarrow> bool" where
  "trimming s r =
     (\<exists>a b. s = a @ r @ b \<and> spaces a \<and> spaces b \<and>
            (r = [] \<or> (\<not> is_space (hd r) \<and> \<not> is_space (last r))))"

text \<open>
  For the proofs: a string read backwards from its end, past white space, one percent
  sign and white space (\<open>after_tail\<close>); the two tails as patterns of their own, and what
  a pattern does to every state. \<open>reads ic r L\<close>: started anywhere, \<open>r\<close> consumes exactly the prefixes in
  \<open>L\<close> and leaves the capture alone. \<open>ends ic r L\<close>: \<open>r\<close> matches exactly when the
  whole remaining input is in \<open>L\<close>, and consumes all of it.
\<close>

definition drop_pct :: "jsstring \<Rightarrow> jsstring" where
  "drop_pct x = (case x of [] \<Rightarrow> [] | c # cs \<Rightarrow> if c = 37 then cs else c # cs)"

definition after_tail :: "jsstring \<Rightarrow> jsstring" where
  "after_tail s = dropWhile is_space (drop_pct (dropWhile is_space (rev s)))"

definition tail_re :: re where
  "tail_re = Cat (Star (Sym Space)) (Cat (Opt (Sym (Chr 37))) (Cat (Star (Sym Space)) Eos))"

definition ptail_re :: re where
  "ptail_re =
     Cat (Star (Sym Space)) (Cat (Opt (Sym (Chr 37)))
       (Cat (Sym (Chr 41)) (Cat (Star (Sym Space)) Eos)))"

definition reads :: "bool \<Rightarrow> re \<Rightarrow> (jsstring \<Rightarrow> bool) \<Rightarrow> bool" where
  "reads ic r L =
     (\<forall>s g s' g'. (s', g') \<in> set (ms ic r (s, g)) \<longleftrightarrow> g' = g \<and> (\<exists>p. s = p @ s' \<and> L p))"

definition ends :: "bool \<Rightarrow> re \<Rightarrow> (jsstring \<Rightarrow> bool) \<Rightarrow> bool" where
  "ends ic r L =
     (\<forall>s g s' g'. (s', g') \<in> set (ms ic r (s, g)) \<longleftrightarrow> s' = [] \<and> g' = g \<and> L s)"

section \<open>Facts about the resolver\<close>

lemma ifE_holds: "holds g \<Longrightarrow> ifE g t e = t"
  by (auto simp: holds_def ifE_def bindE_def split: sum.splits)

lemma ifE_fails: "fails g \<Longrightarrow> ifE g t e = e"
  by (auto simp: fails_def ifE_def bindE_def split: sum.splits)

lemma holds_Inr [simp]: "holds (Inr x) = truthy x" and holds_Inl [simp]: "\<not> holds (Inl e)"
  and fails_Inr [simp]: "fails (Inr x) = (\<not> truthy x)" and fails_Inl [simp]: "\<not> fails (Inl e)"
  by (simp_all add: holds_def fails_def)

lemma bindE_Inr [simp]: "bindE (Inr x) f = f x" and bindE_Inl [simp]: "bindE (Inl e) f = Inl e"
  by (simp_all add: bindE_def)

lemma orE_Inr [simp]: "orE (Inr a) (Inr b) = Inr (js_or a b)"
  by (simp add: orE_def js_or_def)

lemma andE_Inr [simp]: "andE (Inr a) m = (if truthy a then m else Inr a)"
  by (simp add: andE_def)

lemma neE_Inr [simp]: "neE (Inr a) t = Inr (JBool (a \<noteq> JStr (js t)))"
  by (simp add: neE_def)

lemma typeofE_Inr [simp]: "typeofE (Inr a) t = Inr (JBool (typeof a = js t))"
  by (simp add: typeofE_def)

lemma mkloc_Inr [simp]:
  "mkloc (Inr c) (Inr k) (Inr la) (Inr lo) = Inr \<lparr>city = c, country = k, lat = la, lon = lo\<rparr>"
  by (simp add: mkloc_def)

lemma andE_Inl [simp]: "andE (Inl e) m = Inl e" and orE_Inl [simp]: "orE (Inl e) m = Inl e"
  and neE_Inl [simp]: "neE (Inl e) t = Inl e" and typeofE_Inl [simp]: "typeofE (Inl e) t = Inl e"
  and ifE_Inl [simp]: "ifE (Inl e) a b = Inl e"
  by (simp_all add: andE_def orE_def neE_def typeofE_def ifE_def)

lemma nullish_simps [simp]:
  "nullish JUndefined" "nullish JNull" "\<not> nullish (JBool b)" "\<not> nullish JNaN"
  "\<not> nullish (JNum q)" "\<not> nullish (JStr s)" "\<not> nullish (JArr xs)" "\<not> nullish (JObj kvs)"
  by (simp_all add: nullish_def)

lemma truthy_not_nullish: "truthy v \<Longrightarrow> \<not> nullish v"
  by (auto simp: nullish_def)

lemma truthy_qfld: "truthy (qfld v k) \<longleftrightarrow> \<not> nullish v \<and> truthy (fld v k)"
  by (simp add: qfld_def)

lemma nullish_qfld: "nullish (qfld v k) \<longleftrightarrow> nullish v \<or> nullish (fld v k)"
  by (simp add: qfld_def)

lemma qfld_fld: "\<not> nullish v \<Longrightarrow> qfld v k = fld v k"
  by (simp add: qfld_def)

lemma qfld_nullish [simp]: "qfld JUndefined k = JUndefined"
  by (simp add: qfld_def)

lemma path_q1: "path v [QDot a] = Inr (qfld v a)"
  by (simp add: qfld_def)

lemma path_q2: "path v [QDot a, QDot b] = Inr (qfld (qfld v a) b)"
  by (simp add: qfld_def)

lemma path_d1: "path v [Dot a] = (if nullish v then Inl TypeError else Inr (fld v a))"
  by simp

lemma path_dq: "path v [Dot a, QDot b] = (if nullish v then Inl TypeError else Inr (qfld (fld v a) b))"
  by (simp add: qfld_def)

lemma path_dqq:
  "path v [Dot a, QDot b, QDot c] =
     (if nullish v then Inl TypeError else Inr (qfld (qfld (fld v a) b) c))"
  by (simp add: qfld_def)

lemma path_dd:
  "path v [Dot a, Dot b] =
     (if nullish v \<or> nullish (fld v a) then Inl TypeError else Inr (fld (fld v a) b))"
  by simp

lemma path_ddd:
  "path v [Dot a, Dot b, Dot c] =
     (if nullish v \<or> nullish (fld v a) \<or> nullish (fld (fld v a) b) then Inl TypeError
      else Inr (fld (fld (fld v a) b) c))"
  by simp

lemma path_ddqq:
  "path v [Dot a, Dot b, QDot c, QDot d] =
     (if nullish v \<or> nullish (fld v a) then Inl TypeError
      else Inr (qfld (qfld (fld (fld v a) b) c) d))"
  by (simp add: qfld_def)

lemma path_dqqq:
  "path v [Dot a, QDot b, QDot c, QDot d] =
     (if nullish v then Inl TypeError else Inr (qfld (qfld (qfld (fld v a) b) c) d))"
  by (simp add: qfld_def)

lemmas path_forms = path_q1 path_q2 path_d1 path_dq path_dqq path_dd path_ddd path_ddqq path_dqqq

lemma js_nonempty [simp]: "js (c # cs) \<noteq> []"
  by (simp add: js_def)

lemma truthy_present: "truthy v \<Longrightarrow> present v"
  by (cases v) (simp_all add: present_def)

lemma present_js_or [simp]: "present b \<Longrightarrow> present (js_or a b)"
  by (simp add: js_or_def truthy_present)

lemma present_consts [simp]: "present (JStr s)" "present (JNum q)"
  by (simp_all add: present_def)

lemma typeof_string: "typeof v = js ''string'' \<longleftrightarrow> (\<exists>s. v = JStr s)"
  by (cases v) (simp_all add: js_def)

lemma typeof_object_not_string: "typeof v = js ''object'' \<Longrightarrow> typeof v \<noteq> js ''string''"
  by (simp add: js_def)

lemma split_on_nonempty [simp]: "split_on c s \<noteq> []"
  by (induction s) (auto split: list.splits)

subsection \<open>Guards\<close>

lemma guard1_holds:
  "holds (guard1 chart) \<longleftrightarrow>
     \<not> nullish chart \<and> truthy (qfld (qfld (chart_data chart) ''location'') ''city'') \<and>
     qfld (qfld (chart_data chart) ''location'') ''city'' \<noteq> JStr (js ''Unknown'')"
  by (auto simp add: guard1_def path_forms qfld_def simp del: path.simps split: if_splits)

lemma guard1_fails: "fails (guard1 chart) \<longleftrightarrow> \<not> nullish chart \<and> \<not> holds (guard1 chart)"
  by (auto simp add: guard1_def path_forms qfld_def simp del: path.simps split: if_splits)

lemma guard2_holds:
  "holds (guard2 chart) \<longleftrightarrow>
     \<not> nullish chart \<and> truthy (qfld (timezone_info chart) ''location'') \<and>
     typeof (qfld (timezone_info chart) ''location'') = js ''object''"
  by (auto simp add: guard2_def path_forms qfld_def simp del: path.simps split: if_splits)

lemma guard2_fails: "fails (guard2 chart) \<longleftrightarrow> \<not> nullish chart \<and> \<not> holds (guard2 chart)"
  by (auto simp add: guard2_def path_forms qfld_def simp del: path.simps split: if_splits)

lemma guard3_holds:
  "holds (guard3 chart) \<longleftrightarrow>
     \<not> nullish chart \<and> truthy (qfld (timezone_info chart) ''location_name'') \<and>
     qfld (timezone_info chart) ''location_name'' \<noteq> JStr (js ''Unknown location'') \<and>
     qfld (timezone_info chart) ''location_name'' \<noteq> JStr (js ''Unknown'')"
  by (auto simp add: guard3_def path_forms qfld_def simp del: path.simps split: if_splits)

lemma guard3_fails: "fails (guard3 chart) \<longleftrightarrow> \<not> nullish chart \<and> \<not> holds (guard3 chart)"
  by (auto simp add: guard3_def path_forms qfld_def simp del: path.simps split: if_splits)

lemma guard4_holds:
  "holds (guard4 chart) \<longleftrightarrow>
     \<not> nullish chart \<and> truthy (fld chart ''location_name'') \<and>
     fld chart ''location_name'' \<noteq> JStr (js ''Unknown location'') \<and>
     fld chart ''location_name'' \<noteq> JStr (js ''Unknown'')"
  by (auto simp add: guard4_def path_forms qfld_def simp del: path.simps split: if_splits)

lemma guard4_fails: "fails (guard4 chart) \<longleftrightarrow> \<not> nullish chart \<and> \<not> holds (guard4 chart)"
  by (auto simp add: guard4_def path_forms qfld_def simp del: path.simps split: if_splits)

lemma guard5_holds:
  "holds (guard5 chart) \<longleftrightarrow>
     \<not> nullish chart \<and> truthy (fld chart ''location'') \<and>
     typeof (fld chart ''location'') = js ''object''"
  by (auto simp add: guard5_def path_forms qfld_def simp del: path.simps split: if_splits)

lemma guard5_fails: "fails (guard5 chart) \<longleftrightarrow> \<not> nullish chart \<and> \<not> holds (guard5 chart)"
  by (auto simp add: guard5_def path_forms qfld_def simp del: path.simps split: if_splits)

lemma guard6_holds:
  "holds (guard6 chart) \<longleftrightarrow>
     \<not> nullish chart \<and> typeof (fld chart ''location'') = js ''string'' \<and>
     fld chart ''location'' \<noteq> JStr (js ''Unknown'')"
  by (auto simp add: guard6_def path_forms qfld_def simp del: path.simps split: if_splits)

lemma guard6_fails: "fails (guard6 chart) \<longleftrightarrow> \<not> nullish chart \<and> \<not> holds (guard6 chart)"
  by (auto simp add: guard6_def path_forms qfld_def simp del: path.simps split: if_splits)

lemma tz_eq: "\<not> nullish chart \<Longrightarrow> tz chart = Inr (qfld (timezone_info chart) ''timezone'')"
  by (simp add: tz_def path_forms del: path.simps)

subsection \<open>Branches\<close>

lemma branch1_eq:
  assumes "holds (guard1 chart)"
  shows "branch1 chart =
     Inr \<lparr>city = fld (fld (chart_data chart) ''location'') ''city'',
          country = js_or (fld (fld (chart_data chart) ''location'') ''country'')
                          (JStr (js ''Unknown'')),
          lat = js_or (fld (fld (chart_data chart) ''location'') ''latitude'')
                  (js_or (fld (fld (chart_data chart) ''location'') ''lat'') (JNum 0)),
          lon = js_or (fld (fld (chart_data chart) ''location'') ''longitude'')
                  (js_or (fld (fld (chart_data chart) ''location'') ''lon'') (JNum 0))\<rparr>"
  using assms
  by (auto simp add: guard1_holds branch1_def path_forms qfld_def truthy_not_nullish
      simp del: path.simps split: if_splits)

lemma branch2_eq:
  assumes "holds (guard2 chart)"
  shows "branch2 chart =
     Inr \<lparr>city = js_or (fld (fld (timezone_info chart) ''location'') ''city'')
                  (js_or (fld (fld (timezone_info chart) ''location'') ''name'')
                         (JStr (js ''Unknown''))),
          country = js_or (fld (fld (timezone_info chart) ''location'') ''country'')
                          (JStr (js ''Unknown'')),
          lat = js_or (fld (fld (timezone_info chart) ''location'') ''latitude'')
                  (js_or (fld (fld (timezone_info chart) ''location'') ''lat'') (JNum 0)),
          lon = js_or (fld (fld (timezone_info chart) ''location'') ''longitude'')
                  (js_or (fld (fld (timezone_info chart) ''location'') ''lon'') (JNum 0))\<rparr>"
  using assms
  by (auto simp add: guard2_holds branch2_def path_forms qfld_def truthy_not_nullish
      simp del: path.simps split: if_splits)

lemma branch3_eq:
  assumes "holds (guard3 chart)" and "qfld (timezone_info chart) ''location_name'' = JStr s"
  shows "branch3 chart =
     Inr \<lparr>city = js_or (elem (map trim (split_on 44 s)) 0) (JStr s),
          country = js_or (elem (map trim (split_on 44 s)) 1) (JStr (js ''Unknown'')),
          lat = js_or (qfld (qfld (timezone_info chart) ''coordinates'') ''latitude'') (JNum 0),
          lon = js_or (qfld (qfld (timezone_info chart) ''coordinates'') ''longitude'') (JNum 0)\<rparr>"
  using assms
  by (auto simp add: guard3_holds branch3_def comma_parts_def splitE_def path_forms qfld_def truthy_not_nullish
      simp del: path.simps split: if_splits)

lemma branch4_eq:
  assumes "holds (guard4 chart)" and "fld chart ''location_name'' = JStr s"
  shows "branch4 chart =
     Inr \<lparr>city = js_or (elem (map trim (split_on 44 s)) 0) (JStr s),
          country = js_or (elem (map trim (split_on 44 s)) 1) (JStr (js ''Unknown'')),
          lat = js_or (qfld (qfld (timezone_info chart) ''coordinates'') ''latitude'') (JNum 0),
          lon = js_or (qfld (qfld (timezone_info chart) ''coordinates'') ''longitude'') (JNum 0)\<rparr>"
  using assms
  by (auto simp add: guard4_holds branch4_def comma_parts_def splitE_def path_forms qfld_def truthy_not_nullish
      simp del: path.simps split: if_splits)

lemma branch5_eq:
  assumes "holds (guard5 chart)"
  shows "branch5 chart =
     Inr \<lparr>city = js_or (fld (fld chart ''location'') ''city'') (JStr (js ''Unknown'')),
          country = js_or (fld (fld chart ''location'') ''country'') (JStr (js ''Unknown'')),
          lat = js_or (fld (fld chart ''location'') ''latitude'')
                  (js_or (fld (fld chart ''location'') ''lat'') (JNum 0)),
          lon = js_or (fld (fld chart ''location'') ''longitude'')
                  (js_or (fld (fld chart ''location'') ''lon'') (JNum 0))\<rparr>"
  using assms
  by (auto simp add: guard5_holds branch5_def path_forms qfld_def truthy_not_nullish
      simp del: path.simps split: if_splits)

lemma branch6_eq:
  assumes "holds (guard6 chart)" and "fld chart ''location'' = JStr s"
  shows "branch6 chart =
     Inr \<lparr>city = js_or (elem (map trim (split_on 44 s)) 0) (JStr s),
          country = js_or (elem (map trim (split_on 44 s)) 1) (JStr (js ''Unknown'')),
          lat = JNum 0, lon = JNum 0\<rparr>"
  using assms
  by (auto simp add: guard6_holds branch6_def comma_parts_def splitE_def path_forms qfld_def truthy_not_nullish
      simp del: path.simps split: if_splits)

lemma branch7_eq:
  assumes "\<not> nullish chart" and "qfld (timezone_info chart) ''timezone'' = JStr s"
  shows "branch7 chart =
     Inr \<lparr>city = JStr (replace_g False (Sym (Chr 95)) (js '' '') (last (split_on 47 s))),
          country = js_or (elem (split_on 47 s) 0) (JStr (js ''Unknown'')),
          lat = JNum 0, lon = JNum 0\<rparr>"
  using assms
  by (simp add: branch7_def tz_def path_forms splitE_def del: path.simps split: list.splits)

lemma guard7_text:
  assumes "\<not> nullish chart" and "qfld (timezone_info chart) ''timezone'' = JStr s"
  shows "holds (guard7 chart) \<longleftrightarrow> s \<noteq> [] \<and> s \<noteq> js ''UTC'' \<and> str_includes s (js ''/'')"
    and "fails (guard7 chart) \<longleftrightarrow> \<not> holds (guard7 chart)"
  using assms by (auto simp add: guard7_def tz_def path_forms includesE_def simp del: path.simps)

lemma guard7_falsy:
  assumes "\<not> nullish chart" and "\<not> truthy (qfld (timezone_info chart) ''timezone'')"
  shows "fails (guard7 chart)"
  using assms by (simp add: guard7_def tz_def path_forms del: path.simps)

subsection \<open>Which branch answers\<close>

lemma answer1: "holds (guard1 chart) \<Longrightarrow> getLocationData chart = branch1 chart"
  by (simp add: getLocationData_def ifE_holds)

lemma answer2:
  "fails (guard1 chart) \<Longrightarrow> holds (guard2 chart) \<Longrightarrow> getLocationData chart = branch2 chart"
  by (simp add: getLocationData_def ifE_holds ifE_fails)

lemma answer3:
  "fails (guard1 chart) \<Longrightarrow> fails (guard2 chart) \<Longrightarrow> holds (guard3 chart) \<Longrightarrow>
   getLocationData chart = branch3 chart"
  by (simp add: getLocationData_def ifE_holds ifE_fails)

lemma answer4:
  "fails (guard1 chart) \<Longrightarrow> fails (guard2 chart) \<Longrightarrow> fails (guard3 chart) \<Longrightarrow>
   holds (guard4 chart) \<Longrightarrow> getLocationData chart = branch4 chart"
  by (simp add: getLocationData_def ifE_holds ifE_fails)

lemma answer5:
  "fails (guard1 chart) \<Longrightarrow> fails (guard2 chart) \<Longrightarrow> fails (guard3 chart) \<Longrightarrow>
   fails (guard4 chart) \<Longrightarrow> holds (guard5 chart) \<Longrightarrow> getLocationData chart = branch5 chart"
  by (simp add: getLocationData_def ifE_holds ifE_fails)

lemma answer6:
  "fails (guard1 chart) \<Longrightarrow> fails (guard2 chart) \<Longrightarrow> fails (guard3 chart) \<Longrightarrow>
   fails (guard4 chart) \<Longrightarrow> fails (guard5 chart) \<Longrightarrow> holds (guard6 chart) \<Longrightarrow>
   getLocationData chart = branch6 chart"
  by (simp add: getLocationData_def ifE_holds ifE_fails)

lemma answer7:
  "fails (guard1 chart) \<Longrightarrow> fails (guard2 chart) \<Longrightarrow> fails (guard3 chart) \<Longrightarrow>
   fails (guard4 chart) \<Longrightarrow> fails (guard5 chart) \<Longrightarrow> fails (guard6 chart) \<Longrightarrow>
   holds (guard7 chart) \<Longrightarrow> getLocationData chart = branch7 chart"
  by (simp add: getLocationData_def ifE_holds ifE_fails)

lemma answer8: "no_branch chart \<Longrightarrow> getLocationData chart = Inr unknown_location"
  by (simp add: getLocationData_def no_branch_def ifE_fails)

lemma populated_unknown: "populated unknown_location"
  by (simp add: populated_def unknown_location_def)

lemma split_on_none: "c \<notin> set s \<Longrightarrow> split_on c s = [s]"
  by (induction s) auto

lemma split_on_first: "c \<notin> set p \<Longrightarrow> split_on c (p @ c # r) = p # split_on c r"
  by (induction p) auto

lemma dropWhile_first: "c \<notin> set p \<Longrightarrow> dropWhile (\<lambda>x. x \<noteq> c) (p @ c # r) = c # r"
  by (induction p) auto

lemma takeWhile_first: "c \<notin> set p \<Longrightarrow> takeWhile (\<lambda>x. x \<noteq> c) (p @ c # r) = p"
  by (induction p) auto

lemma takeWhile_none: "c \<notin> set s \<Longrightarrow> takeWhile (\<lambda>x. x \<noteq> c) s = s"
  by (induction s) auto

lemma dropWhile_none: "c \<notin> set s \<Longrightarrow> dropWhile (\<lambda>x. x \<noteq> c) s = []"
  by (induction s) auto

lemma elem0_split: "elem (map f (split_on c s)) 0 = JStr (f (segment_first c s))"
proof (cases "c \<in> set s")
  case False
  then show ?thesis
    by (simp add: split_on_none elem_def segment_first_def takeWhile_none)
next
  case True
  then obtain p r where "s = p @ c # r" and "c \<notin> set p"
    by (meson split_list_first)
  then show ?thesis
    by (simp add: split_on_first elem_def segment_first_def takeWhile_first)
qed

lemma elem0_split_id: "elem (split_on c s) 0 = JStr (segment_first c s)"
  using elem0_split [of "\<lambda>x. x" c s] by simp

lemma elem1_split:
  "elem (map f (split_on c s)) (Suc 0) =
     (case segment_second c s of None \<Rightarrow> JUndefined | Some p \<Rightarrow> JStr (f p))"
proof (cases "c \<in> set s")
  case False
  then show ?thesis
    by (simp add: split_on_none elem_def segment_second_def dropWhile_none)
next
  case True
  then obtain p r where s: "s = p @ c # r" and p: "c \<notin> set p"
    by (meson split_list_first)
  have "elem (map f (split_on c r)) 0 = JStr (f (segment_first c r))"
    by (rule elem0_split)
  then show ?thesis
    using s p
    by (simp add: split_on_first elem_def segment_second_def dropWhile_first segment_first_def
        split: if_splits)
qed

lemma segment_last_first:
  "c \<notin> set p \<Longrightarrow> segment_last c (p @ c # r) = segment_last c r"
proof (cases "c \<in> set r")
  case True
  then show ?thesis by (auto simp add: segment_last_def takeWhile_append)
next
  case False
  then have r: "c \<notin> set (rev r)" by simp
  have "takeWhile (\<lambda>x. x \<noteq> c) (rev r @ c # rev p) = rev r"
    using r by (rule takeWhile_first)
  moreover have "takeWhile (\<lambda>x. x \<noteq> c) (rev r) = rev r"
    using r by (rule takeWhile_none)
  ultimately show ?thesis
    by (simp only: segment_last_def rev_append rev.simps append_assoc append_Cons append_Nil)
qed

lemma last_split_on: "last (split_on c s) = segment_last c s"
proof (induction s rule: length_induct)
  case (1 s)
  show ?case
  proof (cases "c \<in> set s")
    case False
    then have "c \<notin> set (rev s)" by simp
    then show ?thesis
      using False by (simp add: split_on_none segment_last_def takeWhile_none del: set_rev)
  next
    case True
    then obtain p r where s: "s = p @ c # r" and p: "c \<notin> set p"
      by (meson split_list_first)
    have "last (split_on c r) = segment_last c r"
      using 1 s by simp
    then show ?thesis
      using s p by (simp add: split_on_first segment_last_first)
  qed
qed

lemma str_includes_single: "str_includes s [c] \<longleftrightarrow> c \<in> set s"
  by (induction s) auto

declare ms.simps(5) [simp del]

lemma replace_g_chr:
  "replace_g False (Sym (Chr a)) [b] s = map (\<lambda>c. if c = a then b else c) s"
  by (induction s) auto

lemma js_or_city: "js_or (elem (map trim (split_on 44 s)) 0) (JStr s) = name_city s"
  by (simp add: elem0_split js_or_def name_city_def)

lemma js_or_country:
  "js_or (elem (map trim (split_on 44 s)) (Suc 0)) (JStr (js ''Unknown'')) = name_country s"
  by (simp add: elem1_split js_or_def name_country_def split: option.splits)

lemmas resolver_defs =
  getLocationData_def guard1_def guard2_def guard3_def guard4_def guard5_def guard6_def
  guard7_def branch1_def branch2_def branch3_def branch4_def branch5_def branch6_def
  branch7_def tz_def comma_parts_def splitE_def includesE_def elem_def unknown_location_def
  ifE_def fld_def js_def trim_def is_space_def js_or_def

section \<open>The resolver's claims\<close>

text \<open>
  Claim C1, as stated, fails: a truthy \<open>location_name\<close> that is not a string makes
  \<open>locationStr.split\<close> raise, so no record is returned at all.
\<close>

theorem resolver_raises_on_numeric_name:
  "getLocationData (JObj [(js ''location_name'', JNum 42)]) = Inl TypeError"
  by (simp add: resolver_defs)

text \<open>
  Claim C1, amended. For every chart that is not \<open>null\<close> or \<open>undefined\<close> and whose two
  \<open>location_name\<close> fields and \<open>timezone\<close> field are strings whenever they are truthy, the
  resolver returns a record whose four fields are all present (none is \<open>undefined\<close> or
  \<open>null\<close>); and when none of the seven guards is satisfied the record is city
  \<open>Unknown\<close>, country \<open>Unknown\<close>, lat 0, lon 0.
\<close>

theorem resolver_populated:
  assumes "\<not> nullish chart"
    and "text_or_falsy
           (path chart [Dot ''chart_data'', QDot ''timezone_info'', QDot ''location_name''])"
    and "text_or_falsy (path chart [Dot ''location_name''])"
    and "text_or_falsy (tz chart)"
  shows "(\<exists>r. getLocationData chart = Inr r \<and> populated r) \<and>
         (no_branch chart \<longrightarrow> getLocationData chart = Inr unknown_location)"
proof -
  have t3: "\<exists>s. qfld (timezone_info chart) ''location_name'' = JStr s"
    if "truthy (qfld (timezone_info chart) ''location_name'')"
    using assms(1,2) that
    by (simp add: text_or_falsy_def path_forms typeof_string del: path.simps)
  have t4: "\<exists>s. fld chart ''location_name'' = JStr s" if "truthy (fld chart ''location_name'')"
    using assms(1,3) that
    by (simp add: text_or_falsy_def path_forms typeof_string del: path.simps)
  have t7: "\<exists>s. qfld (timezone_info chart) ''timezone'' = JStr s"
    if "truthy (qfld (timezone_info chart) ''timezone'')"
    using assms(1,4) that by (simp add: text_or_falsy_def tz_eq typeof_string)
  have "\<exists>r. getLocationData chart = Inr r \<and> populated r"
  proof (cases "holds (guard1 chart)")
    case True
    then have "truthy (fld (fld (chart_data chart) ''location'') ''city'')"
      by (auto simp: guard1_holds qfld_def split: if_splits)
    then show ?thesis using True by (simp add: answer1 branch1_eq populated_def truthy_present)
  next
    case False
    then have f1: "fails (guard1 chart)" using assms(1) by (simp add: guard1_fails)
    show ?thesis
    proof (cases "holds (guard2 chart)")
      case True
      then show ?thesis using f1 by (simp add: answer2 branch2_eq populated_def)
    next
      case False
      then have f2: "fails (guard2 chart)" using assms(1) by (simp add: guard2_fails)
      show ?thesis
      proof (cases "holds (guard3 chart)")
        case True
        then obtain s where "qfld (timezone_info chart) ''location_name'' = JStr s"
          using t3 by (auto simp: guard3_holds)
        then show ?thesis using True f1 f2 by (simp add: answer3 branch3_eq populated_def)
      next
        case False
        then have f3: "fails (guard3 chart)" using assms(1) by (simp add: guard3_fails)
        show ?thesis
        proof (cases "holds (guard4 chart)")
          case True
          then obtain s where "fld chart ''location_name'' = JStr s"
            using t4 by (auto simp: guard4_holds)
          then show ?thesis using True f1 f2 f3 by (simp add: answer4 branch4_eq populated_def)
        next
          case False
          then have f4: "fails (guard4 chart)" using assms(1) by (simp add: guard4_fails)
          show ?thesis
          proof (cases "holds (guard5 chart)")
            case True
            then show ?thesis using f1 f2 f3 f4 by (simp add: answer5 branch5_eq populated_def)
          next
            case False
            then have f5: "fails (guard5 chart)" using assms(1) by (simp add: guard5_fails)
            show ?thesis
            proof (cases "holds (guard6 chart)")
              case True
              then obtain s where "fld chart ''location'' = JStr s"
                by (auto simp: guard6_holds typeof_string)
              then show ?thesis
                using True f1 f2 f3 f4 f5 by (simp add: answer6 branch6_eq populated_def)
            next
              case False
              then have f6: "fails (guard6 chart)" using assms(1) by (simp add: guard6_fails)
              show ?thesis
              proof (cases "holds (guard7 chart)")
                case True
                then have "truthy (qfld (timezone_info chart) ''timezone'')"
                  using guard7_falsy [OF assms(1)] by (auto simp: holds_def fails_def split: sum.splits)
                then obtain s where "qfld (timezone_info chart) ''timezone'' = JStr s"
                  using t7 by auto
                then show ?thesis
                  using True f1 f2 f3 f4 f5 f6 assms(1)
                  by (simp add: answer7 branch7_eq populated_def)
              next
                case False
                have "fails (guard7 chart)"
                proof (cases "truthy (qfld (timezone_info chart) ''timezone'')")
                  case True
                  then obtain s where "qfld (timezone_info chart) ''timezone'' = JStr s"
                    using t7 by auto
                  then show ?thesis using False guard7_text(2) [OF assms(1)] by simp
                next
                  case False
                  then show ?thesis by (rule guard7_falsy [OF assms(1)])
                qed
                then show ?thesis
                  using f1 f2 f3 f4 f5 f6
                  by (simp add: answer8 no_branch_def populated_unknown)
              qed
            qed
          qed
        qed
      qed
    qed
  qed
  then show ?thesis by (simp add: answer8)
qed

theorem resolver_populated_witness:
  "(\<exists>r. getLocationData (JObj [(js ''chart_data'', JNull)]) = Inr r \<and> populated r) \<and>
   no_branch (JObj [(js ''chart_data'', JNull)]) \<and>
   getLocationData (JObj [(js ''chart_data'', JNull)]) = Inr unknown_location"
proof -
  let ?c = "JObj [(js ''chart_data'', JNull)]"
  have h1: "\<not> nullish ?c" by simp
  have h2: "text_or_falsy
      (path ?c [Dot ''chart_data'', QDot ''timezone_info'', QDot ''location_name''])"
    by (simp add: text_or_falsy_def fld_def js_def)
  have h3: "text_or_falsy (path ?c [Dot ''location_name''])"
    by (simp add: text_or_falsy_def fld_def js_def)
  have h4: "text_or_falsy (tz ?c)"
    by (simp add: text_or_falsy_def tz_def fld_def js_def)
  have nb: "no_branch ?c"
    by (simp add: no_branch_def resolver_defs)
  from resolver_populated [OF h1 h2 h3 h4] nb show ?thesis by blast
qed

text \<open>
  Claim C4, as stated, fails: a \<open>latitude\<close> of 0 does not take precedence over a \<open>lat\<close>
  field, because \<open>||\<close> passes over every falsy value.
\<close>

theorem zero_latitude_not_preferred:
  "getLocationData
     (JObj [(js ''location'', JObj [(js ''latitude'', JNum 0), (js ''lat'', JNum 5)])]) =
   Inr \<lparr>city = JStr (js ''Unknown''), country = JStr (js ''Unknown''),
        lat = JNum 5, lon = JNum 0\<rparr>"
  by (simp add: resolver_defs)

text \<open>
  Claim C4, amended. In each of the three branches that read a location object (the
  nested \<open>chart_data.location\<close>, the \<open>timezone_info.location\<close> object and the top-level
  \<open>location\<close> object), lat is the object's \<open>latitude\<close> when that is truthy, else its \<open>lat\<close>
  when that is truthy, else 0, and lon likewise from \<open>longitude\<close> and \<open>lon\<close>. In the
  \<open>timezone_info.location\<close> branch the city is the object's \<open>city\<close> when truthy, else its
  \<open>name\<close> when truthy, else \<open>Unknown\<close>; in the \<open>chart_data.location\<close> branch it is the
  object's \<open>city\<close>.
\<close>

theorem field_preference:
  "(holds (guard1 chart) \<longrightarrow>
      (\<exists>r. getLocationData chart = Inr r \<and>
           city r = fld (fld (chart_data chart) ''location'') ''city'' \<and>
           lat r = js_or (fld (fld (chart_data chart) ''location'') ''latitude'')
                     (js_or (fld (fld (chart_data chart) ''location'') ''lat'') (JNum 0)) \<and>
           lon r = js_or (fld (fld (chart_data chart) ''location'') ''longitude'')
                     (js_or (fld (fld (chart_data chart) ''location'') ''lon'') (JNum 0)))) \<and>
   (fails (guard1 chart) \<and> holds (guard2 chart) \<longrightarrow>
      (\<exists>r. getLocationData chart = Inr r \<and>
           city r = js_or (fld (fld (timezone_info chart) ''location'') ''city'')
                      (js_or (fld (fld (timezone_info chart) ''location'') ''name'')
                             (JStr (js ''Unknown''))) \<and>
           lat r = js_or (fld (fld (timezone_info chart) ''location'') ''latitude'')
                     (js_or (fld (fld (timezone_info chart) ''location'') ''lat'') (JNum 0)) \<and>
           lon r = js_or (fld (fld (timezone_info chart) ''location'') ''longitude'')
                     (js_or (fld (fld (timezone_info chart) ''location'') ''lon'') (JNum 0)))) \<and>
   (fails (guard1 chart) \<and> fails (guard2 chart) \<and> fails (guard3 chart) \<and>
    fails (guard4 chart) \<and> holds (guard5 chart) \<longrightarrow>
      (\<exists>r. getLocationData chart = Inr r \<and>
           lat r = js_or (fld (fld chart ''location'') ''latitude'')
                     (js_or (fld (fld chart ''location'') ''lat'') (JNum 0)) \<and>
           lon r = js_or (fld (fld chart ''location'') ''longitude'')
                     (js_or (fld (fld chart ''location'') ''lon'') (JNum 0))))"
  by (simp add: answer1 answer2 answer5 branch1_eq branch2_eq branch5_eq)

theorem field_preference_witness:
  "(\<exists>r. getLocationData
          (JObj [(js ''chart_data'', JObj [(js ''location'',
             JObj [(js ''city'', JStr (js ''Paris'')), (js ''latitude'', JNum 48),
                   (js ''lat'', JNum 1), (js ''lon'', JNum 2)])])]) = Inr r \<and>
        city r = JStr (js ''Paris'') \<and> lat r = JNum 48 \<and> lon r = JNum 2) \<and>
   (\<exists>r. getLocationData
          (JObj [(js ''chart_data'', JObj [(js ''timezone_info'', JObj [(js ''location'',
             JObj [(js ''name'', JStr (js ''Lyon'')), (js ''lat'', JNum 45)])])])]) = Inr r \<and>
        city r = JStr (js ''Lyon'') \<and> lat r = JNum 45 \<and> lon r = JNum 0) \<and>
   (\<exists>r. getLocationData
          (JObj [(js ''location'', JObj [(js ''latitude'', JNum 0), (js ''lat'', JNum 5),
                                        (js ''longitude'', JNum 7), (js ''lon'', JNum 9)])]) = Inr r \<and>
        lat r = JNum 5 \<and> lon r = JNum 7)"
proof -
  let ?a = "JObj [(js ''chart_data'', JObj [(js ''location'',
             JObj [(js ''city'', JStr (js ''Paris'')), (js ''latitude'', JNum 48),
                   (js ''lat'', JNum 1), (js ''lon'', JNum 2)])])]"
  let ?b = "JObj [(js ''chart_data'', JObj [(js ''timezone_info'', JObj [(js ''location'',
             JObj [(js ''name'', JStr (js ''Lyon'')), (js ''lat'', JNum 45)])])])]"
  let ?c = "JObj [(js ''location'', JObj [(js ''latitude'', JNum 0), (js ''lat'', JNum 5),
                                        (js ''longitude'', JNum 7), (js ''lon'', JNum 9)])]"
  have a: "holds (guard1 ?a)"
    by (simp add: resolver_defs)
  have b: "fails (guard1 ?b) \<and> holds (guard2 ?b)"
    by (simp add: resolver_defs)
  have c: "fails (guard1 ?c) \<and> fails (guard2 ?c) \<and> fails (guard3 ?c) \<and> fails (guard4 ?c) \<and>
           holds (guard5 ?c)"
    by (simp add: resolver_defs)
  show ?thesis
    using field_preference [of ?a] field_preference [of ?b] field_preference [of ?c] a b c
    by (simp add: fld_def qfld_def js_def js_or_def)
qed

text \<open>
  Claim C5 at the failing input: the placeholder \<open>Unknown location\<close> in the top-level
  \<open>location\<close> field is taken as a location (its guard excludes \<open>Unknown\<close> only), although
  a timezone is there to fall through to.
\<close>

theorem unknown_location_string_is_taken:
  "getLocationData
     (JObj [(js ''location'', JStr (js ''Unknown location'')),
            (js ''chart_data'', JObj [(js ''timezone_info'',
               JObj [(js ''timezone'', JStr (js ''America/New_York''))])])]) =
   Inr \<lparr>city = JStr (js ''Unknown location''), country = JStr (js ''Unknown''),
        lat = JNum 0, lon = JNum 0\<rparr>"
  by (simp add: resolver_defs)

text \<open>
  Claim C6, as stated, fails: for the name \<open>", France"\<close> the first segment is empty, and
  the city is then the whole name, not the empty segment.
\<close>

theorem empty_first_segment_gives_whole_name:
  "getLocationData (JObj [(js ''location_name'', JStr (js '', France''))]) =
     Inr \<lparr>city = JStr (js '', France''), country = JStr (js ''France''),
          lat = JNum 0, lon = JNum 0\<rparr> \<and>
   trim (segment_first 44 (js '', France'')) = []"
  by (simp add: resolver_defs segment_first_def)

text \<open>
  Claim C6, amended. When the resolver comma-splits a free-text location name (the
  \<open>timezone_info.location_name\<close> branch and the top-level \<open>location_name\<close> branch), the
  city is the trimmed first segment when that is not empty and the whole name, untrimmed,
  when it is empty; the country is the trimmed second segment, or \<open>Unknown\<close> when there
  is no second segment or it is empty.
\<close>

theorem comma_split_name:
  "(fails (guard1 chart) \<and> fails (guard2 chart) \<and> holds (guard3 chart) \<and>
    qfld (timezone_info chart) ''location_name'' = JStr s \<longrightarrow>
      (\<exists>r. getLocationData chart = Inr r \<and> city r = name_city s \<and> country r = name_country s)) \<and>
   (fails (guard1 chart) \<and> fails (guard2 chart) \<and> fails (guard3 chart) \<and>
    holds (guard4 chart) \<and> fld chart ''location_name'' = JStr s \<longrightarrow>
      (\<exists>r. getLocationData chart = Inr r \<and> city r = name_city s \<and> country r = name_country s))"
  by (simp add: answer3 answer4 branch3_eq branch4_eq js_or_city js_or_country)

theorem comma_split_name_witness:
  "(\<exists>r. getLocationData
          (JObj [(js ''chart_data'', JObj [(js ''timezone_info'',
             JObj [(js ''location_name'', JStr (js ''Paris , France''))])])]) = Inr r \<and>
        city r = JStr (js ''Paris'') \<and> country r = JStr (js ''France'')) \<and>
   (\<exists>r. getLocationData (JObj [(js ''location_name'', JStr (js '' London''))]) = Inr r \<and>
        city r = JStr (js ''London'') \<and> country r = JStr (js ''Unknown''))"
proof -
  let ?a = "JObj [(js ''chart_data'', JObj [(js ''timezone_info'',
             JObj [(js ''location_name'', JStr (js ''Paris , France''))])])]"
  let ?b = "JObj [(js ''location_name'', JStr (js '' London''))]"
  have a: "fails (guard1 ?a) \<and> fails (guard2 ?a) \<and> holds (guard3 ?a) \<and>
           qfld (timezone_info ?a) ''location_name'' = JStr (js ''Paris , France'')"
    by (simp add: resolver_defs qfld_def)
  have b: "fails (guard1 ?b) \<and> fails (guard2 ?b) \<and> fails (guard3 ?b) \<and> holds (guard4 ?b) \<and>
           fld ?b ''location_name'' = JStr (js '' London'')"
    by (simp add: resolver_defs)
  have va: "name_city (js ''Paris , France'') = JStr (js ''Paris'') \<and>
            name_country (js ''Paris , France'') = JStr (js ''France'')"
    by (simp add: name_city_def name_country_def segment_first_def segment_second_def
        trim_def is_space_def js_def)
  have vb: "name_city (js '' London'') = JStr (js ''London'') \<and>
            name_country (js '' London'') = JStr (js ''Unknown'')"
    by (simp add: name_city_def name_country_def segment_first_def segment_second_def
        trim_def is_space_def js_def)
  show ?thesis
    using comma_split_name [of ?a "js ''Paris , France''"]
      comma_split_name [of ?b "js '' London''"] a b va vb
    by simp
qed

text \<open>
  The timezone branch on every timezone string, whatever its first segment: an empty
  first segment is falsy, and \<open>parts[0] || 'Unknown'\<close> replaces it.
\<close>

lemma timezone_branch:
  assumes "fails (guard1 chart)" and "fails (guard2 chart)" and "fails (guard3 chart)"
    and "fails (guard4 chart)" and "fails (guard5 chart)" and "fails (guard6 chart)"
    and "tz chart = Inr (JStr s)" and "s \<noteq> js ''UTC''" and "47 \<in> set s"
  shows "getLocationData chart =
     Inr \<lparr>city = JStr (map (\<lambda>c. if c = 95 then 32 else c) (segment_last 47 s)),
          country = (if segment_first 47 s = [] then JStr (js ''Unknown'')
                     else JStr (segment_first 47 s)),
          lat = JNum 0, lon = JNum 0\<rparr>"
proof -
  have n: "\<not> nullish chart" using assms(1) by (simp add: guard1_fails)
  then have t: "qfld (timezone_info chart) ''timezone'' = JStr s"
    using assms(7) by (simp add: tz_eq)
  have sl: "js ''/'' = [47]" and sp: "js '' '' = [32]" by (simp_all add: js_def)
  have "holds (guard7 chart)"
    using assms(8,9) by (auto simp add: guard7_text(1) [OF n t] sl str_includes_single)
  then have "getLocationData chart = branch7 chart"
    using assms(1-6) by (simp add: answer7)
  then show ?thesis
    by (simp add: branch7_eq [OF n t] sp replace_g_chr last_split_on elem0_split_id js_or_def)
qed

lemma segment_first_nonempty:
  assumes "s \<noteq> []" and "hd s \<noteq> sep"
  shows "segment_first sep s \<noteq> []"
  using assms by (cases s) (simp_all add: segment_first_def)

text \<open>
  Claim C7. When none of the first six guards is satisfied and the timezone is a string
  other than \<open>UTC\<close> that contains \<open>/\<close>, the resolver returns the last path segment with
  every underscore replaced by a space as the city, the first path segment as the
  country, and lat = lon = 0. The timezone the resolver reads is the one the payload
  builder has passed to \<open>toLocaleString\<close> as the \<open>timeZone\<close> option (line 8) before its
  only call of the resolver (line 103); that call raises \<open>RangeError\<close> on a name that is
  not a time zone, and no time zone name starts with \<open>/\<close>. Hence the hypothesis that the
  name does not start with \<open>/\<close>: its first path segment is not empty.
\<close>

theorem timezone_location:
  assumes "fails (guard1 chart)" and "fails (guard2 chart)" and "fails (guard3 chart)"
    and "fails (guard4 chart)" and "fails (guard5 chart)" and "fails (guard6 chart)"
    and "tz chart = Inr (JStr s)" and "s \<noteq> js ''UTC''" and "47 \<in> set s"
    and "hd s \<noteq> 47"
  shows "getLocationData chart =
     Inr \<lparr>city = JStr (map (\<lambda>c. if c = 95 then 32 else c) (segment_last 47 s)),
          country = JStr (segment_first 47 s),
          lat = JNum 0, lon = JNum 0\<rparr>"
proof -
  have "s \<noteq> []" using assms(9) by auto
  then have "segment_first 47 s \<noteq> []" using assms(10) by (rule segment_first_nonempty)
  then show ?thesis using timezone_branch [OF assms(1-9)] by simp
qed

theorem timezone_location_witness:
  "getLocationData
     (JObj [(js ''chart_data'', JObj [(js ''timezone_info'',
               JObj [(js ''timezone'', JStr (js ''America/New_York''))])])]) =
   Inr \<lparr>city = JStr (js ''New York''), country = JStr (js ''America''),
        lat = JNum 0, lon = JNum 0\<rparr>"
proof -
  let ?c = "JObj [(js ''chart_data'', JObj [(js ''timezone_info'',
               JObj [(js ''timezone'', JStr (js ''America/New_York''))])])]"
  have g: "fails (guard1 ?c)" "fails (guard2 ?c)" "fails (guard3 ?c)" "fails (guard4 ?c)"
    "fails (guard5 ?c)" "fails (guard6 ?c)"
    by (simp_all add: resolver_defs)
  have t: "tz ?c = Inr (JStr (js ''America/New_York''))"
    by (simp add: resolver_defs)
  have n: "js ''America/New_York'' \<noteq> js ''UTC''" and m: "47 \<in> set (js ''America/New_York'')"
    and k: "hd (js ''America/New_York'') \<noteq> 47"
    by (simp_all add: js_def)
  show ?thesis
    using timezone_location [OF g t n m k]
    by (simp add: segment_first_def segment_last_def js_def)
qed

section \<open>Inputs that are not strings\<close>

text \<open>
  Claim C3. For every input that is not a string, \<open>parseReasoningEntry\<close> returns exactly
  the record with rule \<open>""\<close> and weight 0. The function has no raising path at all: it
  is total, and its result is a record.
\<close>

theorem parse_non_string:
  assumes "\<forall>s. text \<noteq> JStr s"
  shows "parseReasoningEntry text = \<lparr>rule = [], weight = Finite 0\<rparr>"
  using assms by (cases "text") (simp_all add: parseReasoningEntry_def typeof_string)

theorem parse_non_string_witness:
  "parseReasoningEntry (JNum 42) = \<lparr>rule = [], weight = Finite 0\<rparr> \<and>
   parseReasoningEntry JNull = \<lparr>rule = [], weight = Finite 0\<rparr> \<and>
   parseReasoningEntry (JObj [(js ''rule'', JStr (js ''x 5''))]) = \<lparr>rule = [], weight = Finite 0\<rparr>"
  using parse_non_string [of "JNum 42"] parse_non_string [of JNull]
    parse_non_string [of "JObj [(js ''rule'', JStr (js ''x 5''))]"]
  by simp

text \<open>
  Claim C10. For every input that is not a non-empty string (\<open>null\<close>, \<open>undefined\<close>, the
  empty string, numbers, objects, arrays), \<open>cleanMoonText\<close> returns its argument
  unchanged, hence of the same type: a caller that passes a non-string gets it back.
\<close>

theorem cleanMoonText_passes_through:
  assumes "\<not> (\<exists>s. text = JStr s \<and> s \<noteq> [])"
  shows "cleanMoonText text = text \<and> typeof (cleanMoonText text) = typeof text"
  using assms by (cases "text") (simp_all add: cleanMoonText_def typeof_string)

theorem cleanMoonText_passes_through_witness:
  "cleanMoonText JNull = JNull \<and> cleanMoonText JUndefined = JUndefined \<and>
   cleanMoonText (JStr []) = JStr [] \<and> cleanMoonText (JNum 7) = JNum 7 \<and>
   cleanMoonText (JArr [JStr (js ''Moon Moon'')]) = JArr [JStr (js ''Moon Moon'')] \<and>
   cleanMoonText (JObj []) = JObj []"
  using cleanMoonText_passes_through [of JNull] cleanMoonText_passes_through [of JUndefined]
    cleanMoonText_passes_through [of "JStr []"] cleanMoonText_passes_through [of "JNum 7"]
    cleanMoonText_passes_through [of "JArr [JStr (js ''Moon Moon'')]"]
    cleanMoonText_passes_through [of "JObj []"]
  by simp

section \<open>Facts about the matcher and the two patterns\<close>

lemma ms_star_sym_Nil [simp]: "ms ic (Star (Sym k)) ([], g) = [([], g)]"
  by (subst ms.simps(5)) simp

lemma ms_star_sym_Cons [simp]:
  "ms ic (Star (Sym k)) (c # cs, g) =
     (if in_cls ic k c then ms ic (Star (Sym k)) (cs, g) @ [(c # cs, g)] else [(c # cs, g)])"
  by (subst ms.simps(5)) simp

lemma set_ms_star:
  "set (ms ic (Star (Sym k)) (s, g)) =
     {(s', g) |p s'. s = p @ s' \<and> (\<forall>c\<in>set p. in_cls ic k c)}"
proof (induction s)
  case Nil
  show ?case by auto
next
  case (Cons a s)
  show ?case
  proof (cases "in_cls ic k a")
    case False
    have "\<And>p s'. a # s = p @ s' \<Longrightarrow> \<forall>c\<in>set p. in_cls ic k c \<Longrightarrow> p = []"
      using False by (case_tac p) auto
    then show ?thesis using False by auto
  next
    case True
    show ?thesis
    proof (rule set_eqI)
      fix x
      show "x \<in> set (ms ic (Star (Sym k)) (a # s, g)) \<longleftrightarrow>
            x \<in> {(s', g) |p s'. a # s = p @ s' \<and> (\<forall>c\<in>set p. in_cls ic k c)}"
      proof
        assume "x \<in> set (ms ic (Star (Sym k)) (a # s, g))"
        then consider "x = (a # s, g)" | "x \<in> set (ms ic (Star (Sym k)) (s, g))"
          using True by auto
        then show "x \<in> {(s', g) |p s'. a # s = p @ s' \<and> (\<forall>c\<in>set p. in_cls ic k c)}"
        proof cases
          case 1
          then show ?thesis by auto
        next
          case 2
          then obtain p s' where "x = (s', g)" "s = p @ s'" "\<forall>c\<in>set p. in_cls ic k c"
            using Cons.IH by auto
          then have "a # s = (a # p) @ s' \<and> (\<forall>c\<in>set (a # p). in_cls ic k c)"
            using True by simp
          then show ?thesis using \<open>x = (s', g)\<close> by blast
        qed
      next
        assume "x \<in> {(s', g) |p s'. a # s = p @ s' \<and> (\<forall>c\<in>set p. in_cls ic k c)}"
        then obtain p s' where x: "x = (s', g)" and e: "a # s = p @ s'"
          and c: "\<forall>c\<in>set p. in_cls ic k c" by auto
        show "x \<in> set (ms ic (Star (Sym k)) (a # s, g))"
        proof (cases p)
          case Nil
          then have "s' = a # s" using e by simp
          then show ?thesis using x True by simp
        next
          case (Cons b q)
          then have "s = q @ s'" "\<forall>c\<in>set q. in_cls ic k c" using e c by auto
          then have "(s', g) \<in> set (ms ic (Star (Sym k)) (s, g))"
            using Cons.IH by auto
          then show ?thesis using x True by simp
        qed
      qed
    qed
  qed
qed

lemma in_ms_star:
  "(s', g') \<in> set (ms ic (Star (Sym k)) (s, g)) \<longleftrightarrow>
     g' = g \<and> (\<exists>p. s = p @ s' \<and> (\<forall>c\<in>set p. in_cls ic k c))"
  by (auto simp: set_ms_star)

lemma in_ms_plus:
  "(s', g') \<in> set (ms ic (Plus (Sym k)) (s, g)) \<longleftrightarrow>
     g' = g \<and> (\<exists>p. s = p @ s' \<and> p \<noteq> [] \<and> (\<forall>c\<in>set p. in_cls ic k c))"
proof -
  have "(s', g') \<in> set (ms ic (Plus (Sym k)) (s, g)) \<longleftrightarrow>
        (\<exists>c cs. s = c # cs \<and> in_cls ic k c \<and> (s', g') \<in> set (ms ic (Star (Sym k)) (cs, g)))"
    by (cases s) (auto simp: Plus_def)
  also have "\<dots> \<longleftrightarrow> g' = g \<and> (\<exists>p. s = p @ s' \<and> p \<noteq> [] \<and> (\<forall>c\<in>set p. in_cls ic k c))"
  proof
    assume "\<exists>c cs. s = c # cs \<and> in_cls ic k c \<and> (s', g') \<in> set (ms ic (Star (Sym k)) (cs, g))"
    then obtain c cs p where "s = c # cs" "in_cls ic k c" "g' = g" "cs = p @ s'"
      "\<forall>c\<in>set p. in_cls ic k c"
      by (auto simp: in_ms_star)
    then have "s = (c # p) @ s' \<and> c # p \<noteq> [] \<and> (\<forall>x\<in>set (c # p). in_cls ic k x)" by simp
    then show "g' = g \<and> (\<exists>p. s = p @ s' \<and> p \<noteq> [] \<and> (\<forall>c\<in>set p. in_cls ic k c))"
      using \<open>g' = g\<close> by blast
  next
    assume "g' = g \<and> (\<exists>p. s = p @ s' \<and> p \<noteq> [] \<and> (\<forall>c\<in>set p. in_cls ic k c))"
    then obtain p where g: "g' = g" and "s = p @ s'" "p \<noteq> []" "\<forall>c\<in>set p. in_cls ic k c"
      by auto
    then obtain c q where "p = c # q" by (cases p) auto
    then have "s = c # (q @ s')" "in_cls ic k c" "\<forall>x\<in>set q. in_cls ic k x"
      using \<open>s = p @ s'\<close> \<open>\<forall>c\<in>set p. in_cls ic k c\<close> by auto
    then show "\<exists>c cs. s = c # cs \<and> in_cls ic k c \<and> (s', g') \<in> set (ms ic (Star (Sym k)) (cs, g))"
      using g by (auto simp: in_ms_star)
  qed
  finally show ?thesis .
qed

lemma readsD:
  "reads ic r L \<Longrightarrow> (s', g') \<in> set (ms ic r (s, g)) \<longleftrightarrow> g' = g \<and> (\<exists>p. s = p @ s' \<and> L p)"
  by (simp add: reads_def)

lemma endsD:
  "ends ic r L \<Longrightarrow> (s', g') \<in> set (ms ic r (s, g)) \<longleftrightarrow> s' = [] \<and> g' = g \<and> L s"
  by (simp add: ends_def)

lemma reads_cong: "reads ic r P \<Longrightarrow> (\<And>p. P p = Q p) \<Longrightarrow> reads ic r Q"
  by (simp add: reads_def)

lemma ends_cong: "ends ic r P \<Longrightarrow> (\<And>p. P p = Q p) \<Longrightarrow> ends ic r Q"
  by (simp add: ends_def)

lemma reads_Sym: "reads ic (Sym k) (\<lambda>p. \<exists>c. p = [c] \<and> in_cls ic k c)"
  unfolding reads_def
proof (intro allI)
  fix s g s' g'
  show "(s', g') \<in> set (ms ic (Sym k) (s, g)) \<longleftrightarrow>
        g' = g \<and> (\<exists>p. s = p @ s' \<and> (\<exists>c. p = [c] \<and> in_cls ic k c))"
    by (cases s) auto
qed

lemma reads_Star_Sym: "reads ic (Star (Sym k)) (\<lambda>p. \<forall>c\<in>set p. in_cls ic k c)"
  unfolding reads_def by (simp add: in_ms_star)

lemma reads_Plus_Sym: "reads ic (Plus (Sym k)) (\<lambda>p. p \<noteq> [] \<and> (\<forall>c\<in>set p. in_cls ic k c))"
  unfolding reads_def by (simp add: in_ms_plus)

lemma in_ms_Cat:
  "x \<in> set (ms ic (Cat a b) st) \<longleftrightarrow> (\<exists>m\<in>set (ms ic a st). x \<in> set (ms ic b m))"
  by auto

lemma reads_Cat:
  assumes "reads ic a P" and "reads ic b Q"
  shows "reads ic (Cat a b) (\<lambda>p. \<exists>p1 p2. p = p1 @ p2 \<and> P p1 \<and> Q p2)"
  unfolding reads_def
proof (intro allI iffI)
  fix s g s' g'
  assume "(s', g') \<in> set (ms ic (Cat a b) (s, g))"
  then obtain m h where m: "(m, h) \<in> set (ms ic a (s, g))" and x: "(s', g') \<in> set (ms ic b (m, h))"
    unfolding in_ms_Cat by auto
  from m obtain p1 where "h = g" "s = p1 @ m" "P p1" using readsD [OF assms(1)] by blast
  moreover from x obtain p2 where "g' = h" "m = p2 @ s'" "Q p2" using readsD [OF assms(2)] by blast
  ultimately have "g' = g" "s = (p1 @ p2) @ s'" "P p1" "Q p2" by simp_all
  then show "g' = g \<and> (\<exists>p. s = p @ s' \<and> (\<exists>p1 p2. p = p1 @ p2 \<and> P p1 \<and> Q p2))" by blast
next
  fix s s' :: jsstring and g g' :: "jsstring option"
  assume "g' = g \<and> (\<exists>p. s = p @ s' \<and> (\<exists>p1 p2. p = p1 @ p2 \<and> P p1 \<and> Q p2))"
  then obtain p1 p2 where g: "g' = g" and s: "s = p1 @ (p2 @ s')" and "P p1" "Q p2" by auto
  then have "(p2 @ s', g) \<in> set (ms ic a (s, g))" using readsD [OF assms(1)] by blast
  moreover have "(s', g') \<in> set (ms ic b (p2 @ s', g))"
    using g \<open>Q p2\<close> readsD [OF assms(2)] by blast
  ultimately show "(s', g') \<in> set (ms ic (Cat a b) (s, g))"
    unfolding in_ms_Cat by blast
qed

lemma reads_Opt:
  assumes "reads ic a P"
  shows "reads ic (Opt a) (\<lambda>p. p = [] \<or> P p)"
  unfolding reads_def
proof (intro allI)
  fix s g s' g'
  have "(s', g') \<in> set (ms ic (Opt a) (s, g)) \<longleftrightarrow>
        (s', g') = (s, g) \<or> (s', g') \<in> set (ms ic a (s, g))" by auto
  then show "(s', g') \<in> set (ms ic (Opt a) (s, g)) \<longleftrightarrow>
        g' = g \<and> (\<exists>p. s = p @ s' \<and> (p = [] \<or> P p))"
    using readsD [OF assms, of s' g' s g] by auto
qed

lemma ends_Eos: "ends ic Eos (\<lambda>p. p = [])"
  unfolding ends_def by auto

lemma ends_Cat:
  assumes "reads ic a P" and "ends ic b Q"
  shows "ends ic (Cat a b) (\<lambda>s. \<exists>p1 p2. s = p1 @ p2 \<and> P p1 \<and> Q p2)"
  unfolding ends_def
proof (intro allI iffI)
  fix s g s' g'
  assume "(s', g') \<in> set (ms ic (Cat a b) (s, g))"
  then obtain m h where m: "(m, h) \<in> set (ms ic a (s, g))" and x: "(s', g') \<in> set (ms ic b (m, h))"
    unfolding in_ms_Cat by auto
  from m obtain p1 where "h = g" "s = p1 @ m" "P p1" using readsD [OF assms(1)] by blast
  moreover from x have "s' = []" "g' = h" "Q m" using endsD [OF assms(2)] by blast+
  ultimately show "s' = [] \<and> g' = g \<and> (\<exists>p1 p2. s = p1 @ p2 \<and> P p1 \<and> Q p2)" by blast
next
  fix s s' :: jsstring and g g' :: "jsstring option"
  assume "s' = [] \<and> g' = g \<and> (\<exists>p1 p2. s = p1 @ p2 \<and> P p1 \<and> Q p2)"
  then obtain p1 p2 where e: "s' = []" "g' = g" and s: "s = p1 @ p2" and "P p1" "Q p2" by auto
  then have "(p2, g) \<in> set (ms ic a (s, g))" using readsD [OF assms(1)] by blast
  moreover have "(s', g') \<in> set (ms ic b (p2, g))"
    using e \<open>Q p2\<close> endsD [OF assms(2)] by blast
  ultimately show "(s', g') \<in> set (ms ic (Cat a b) (s, g))"
    unfolding in_ms_Cat by blast
qed

lemma in_cls_simps:
  "in_cls False (Chr a) c \<longleftrightarrow> c = a" "in_cls False (OneOf as) c \<longleftrightarrow> c \<in> set as"
  by auto

lemma reads_number: "reads False number_re is_number"
proof -
  have sg: "reads False (Opt (Sym (OneOf [45, 43]))) is_sign"
    by (rule reads_cong [OF reads_Opt [OF reads_Sym]]) (auto simp: is_sign_def)
  have dg: "reads False (Plus (Sym Digit)) digits"
    by (rule reads_cong [OF reads_Plus_Sym]) (auto simp: digits_def)
  have fr: "reads False (Opt (Cat (Sym (Chr 46)) (Plus (Sym Digit))))
              (\<lambda>f. f = [] \<or> (\<exists>fp. f = 46 # fp \<and> digits fp))"
    by (rule reads_cong [OF reads_Opt [OF reads_Cat [OF reads_Sym dg]]]) auto
  have "reads False number_re
          (\<lambda>p. \<exists>p1 p2. p = p1 @ p2 \<and> is_sign p1 \<and>
             (\<exists>q1 q2. p2 = q1 @ q2 \<and> digits q1 \<and> (q2 = [] \<or> (\<exists>fp. q2 = 46 # fp \<and> digits fp))))"
    unfolding number_re_def by (rule reads_Cat [OF sg reads_Cat [OF dg fr]])
  then show ?thesis
  proof (rule reads_cong)
    fix p
    show "(\<exists>p1 p2. p = p1 @ p2 \<and> is_sign p1 \<and>
             (\<exists>q1 q2. p2 = q1 @ q2 \<and> digits q1 \<and> (q2 = [] \<or> (\<exists>fp. q2 = 46 # fp \<and> digits fp))))
          = is_number p"
    proof
      assume "\<exists>p1 p2. p = p1 @ p2 \<and> is_sign p1 \<and>
             (\<exists>q1 q2. p2 = q1 @ q2 \<and> digits q1 \<and> (q2 = [] \<or> (\<exists>fp. q2 = 46 # fp \<and> digits fp)))"
      then obtain sg ip q2 where p: "p = sg @ ip @ q2" and s: "is_sign sg" and d: "digits ip"
        and q: "q2 = [] \<or> (\<exists>fp. q2 = 46 # fp \<and> digits fp)" by auto
      from q show "is_number p"
      proof
        assume "q2 = []"
        then have "p = number_text sg ip []" using p by (simp add: number_text_def)
        then show ?thesis using s d unfolding is_number_def by force
      next
        assume "\<exists>fp. q2 = 46 # fp \<and> digits fp"
        then obtain fp where "q2 = 46 # fp" "digits fp" by auto
        then have "p = number_text sg ip fp" "\<forall>c\<in>set fp. is_digit c"
          using p by (auto simp add: number_text_def digits_def)
        then show ?thesis using s d unfolding is_number_def by blast
      qed
    next
      assume "is_number p"
      then obtain sg ip fp where p: "p = number_text sg ip fp" and s: "is_sign sg"
        and d: "digits ip" and f: "\<forall>c\<in>set fp. is_digit c"
        unfolding is_number_def by auto
      let ?q2 = "if fp = [] then [] else 46 # fp"
      have "?q2 = [] \<or> (\<exists>fp'. ?q2 = 46 # fp' \<and> digits fp')"
        using f by (auto simp: digits_def)
      moreover have "p = sg @ ip @ ?q2" using p by (simp add: number_text_def)
      ultimately show "\<exists>p1 p2. p = p1 @ p2 \<and> is_sign p1 \<and>
             (\<exists>q1 q2. p2 = q1 @ q2 \<and> digits q1 \<and> (q2 = [] \<or> (\<exists>fp. q2 = 46 # fp \<and> digits fp)))"
        using s d by blast
    qed
  qed
qed

lemma ends_tail: "ends False tail_re is_tail"
proof -
  have sp: "reads False (Star (Sym Space)) spaces"
    by (rule reads_cong [OF reads_Star_Sym]) (auto simp: spaces_def)
  have pc: "reads False (Opt (Sym (Chr 37))) is_pct"
    by (rule reads_cong [OF reads_Opt [OF reads_Sym]]) (auto simp: is_pct_def)
  have "ends False (Cat (Star (Sym Space)) Eos) spaces"
    by (rule ends_cong [OF ends_Cat [OF sp ends_Eos]]) auto
  from ends_Cat [OF sp ends_Cat [OF pc this]]
  show ?thesis
    unfolding tail_re_def by (rule ends_cong) (auto simp: is_tail_def)
qed

lemma ends_ptail: "ends False ptail_re is_ptail"
proof -
  have sp: "reads False (Star (Sym Space)) spaces"
    by (rule reads_cong [OF reads_Star_Sym]) (auto simp: spaces_def)
  have pc: "reads False (Opt (Sym (Chr 37))) is_pct"
    by (rule reads_cong [OF reads_Opt [OF reads_Sym]]) (auto simp: is_pct_def)
  have cl: "reads False (Sym (Chr 41)) (\<lambda>p. p = [41])"
    by (rule reads_cong [OF reads_Sym]) auto
  have "ends False (Cat (Star (Sym Space)) Eos) spaces"
    by (rule ends_cong [OF ends_Cat [OF sp ends_Eos]]) auto
  then have "ends False (Cat (Sym (Chr 41)) (Cat (Star (Sym Space)) Eos))
               (\<lambda>s. \<exists>w. s = 41 # w \<and> spaces w)"
    by (rule ends_cong [OF ends_Cat [OF cl]]) auto
  then have "ends False (Cat (Opt (Sym (Chr 37)))
                 (Cat (Sym (Chr 41)) (Cat (Star (Sym Space)) Eos)))
               (\<lambda>s. \<exists>p w. s = p @ 41 # w \<and> is_pct p \<and> spaces w)"
    by (rule ends_cong [OF ends_Cat [OF pc]]) auto
  from ends_Cat [OF sp this]
  show ?thesis
    unfolding ptail_re_def by (rule ends_cong) (auto simp: is_ptail_def)
qed

lemma in_ms_group_number:
  "(s', g') \<in> set (ms False (Group number_re) (s, g)) \<longleftrightarrow>
     (\<exists>t. s = t @ s' \<and> is_number t \<and> g' = Some t)"
proof
  assume "(s', g') \<in> set (ms False (Group number_re) (s, g))"
  then obtain m h where m: "(m, h) \<in> set (ms False number_re (s, g))"
    and e: "s' = m" "g' = Some (take (length s - length m) s)"
    by auto
  from m obtain t where "s = t @ m" "is_number t"
    using readsD [OF reads_number] by blast
  then show "\<exists>t. s = t @ s' \<and> is_number t \<and> g' = Some t"
    using e by auto
next
  assume "\<exists>t. s = t @ s' \<and> is_number t \<and> g' = Some t"
  then obtain t where t: "s = t @ s'" "is_number t" "g' = Some t" by auto
  then have "(s', g) \<in> set (ms False number_re (s, g))"
    using readsD [OF reads_number] by blast
  then have "(s', Some (take (length s - length s') s))
             \<in> set (ms False (Group number_re) (s, g))"
    by (force simp: image_iff)
  then show "(s', g') \<in> set (ms False (Group number_re) (s, g))"
    using t by simp
qed

lemma signed_re_tail: "signed_re = Cat (Group number_re) tail_re"
  by (simp add: signed_re_def tail_re_def)

lemma paren_re_ptail: "paren_re = Cat (Sym (Chr 40)) (Cat (Group number_re) ptail_re)"
  by (simp add: paren_re_def ptail_re_def)

lemma in_ms_signed:
  "(s', g') \<in> set (ms False signed_re (s, g)) \<longleftrightarrow>
     s' = [] \<and> (\<exists>t u. s = t @ u \<and> is_number t \<and> is_tail u \<and> g' = Some t)"
proof -
  have "(s', g') \<in> set (ms False signed_re (s, g)) \<longleftrightarrow>
        (\<exists>m h. (m, h) \<in> set (ms False (Group number_re) (s, g)) \<and>
               (s', g') \<in> set (ms False tail_re (m, h)))"
    unfolding signed_re_tail in_ms_Cat by auto
  also have "\<dots> \<longleftrightarrow> s' = [] \<and> (\<exists>t u. s = t @ u \<and> is_number t \<and> is_tail u \<and> g' = Some t)"
    unfolding in_ms_group_number endsD [OF ends_tail] by blast
  finally show ?thesis .
qed

lemma in_ms_paren:
  "(s', g') \<in> set (ms False paren_re (s, g)) \<longleftrightarrow>
     s' = [] \<and> (\<exists>t u. s = 40 # t @ u \<and> is_number t \<and> is_ptail u \<and> g' = Some t)"
proof -
  have "(s', g') \<in> set (ms False paren_re (s, g)) \<longleftrightarrow>
        (\<exists>r. s = 40 # r \<and> (s', g') \<in> set (ms False (Cat (Group number_re) ptail_re) (r, g)))"
    unfolding paren_re_ptail by (cases s) auto
  also have "\<dots> \<longleftrightarrow>
        (\<exists>r. s = 40 # r \<and> (\<exists>m h. (m, h) \<in> set (ms False (Group number_re) (r, g)) \<and>
               (s', g') \<in> set (ms False ptail_re (m, h))))"
    unfolding in_ms_Cat by auto
  also have "\<dots> \<longleftrightarrow> s' = [] \<and> (\<exists>t u. s = 40 # t @ u \<and> is_number t \<and> is_ptail u \<and> g' = Some t)"
    unfolding in_ms_group_number endsD [OF ends_ptail] by blast
  finally show ?thesis .
qed

subsection \<open>Characters of numbers and tails\<close>

lemma digit_not_space: "is_digit c \<Longrightarrow> \<not> is_space c"
  by (auto simp: is_digit_def is_space_def)

lemma not_digit_simps [simp]: "\<not> is_digit 37" "\<not> is_digit 40" "\<not> is_digit 41"
  by (simp_all add: is_digit_def)

lemma number_chars:
  assumes "is_number t"
  shows "\<forall>c\<in>set t. is_digit c \<or> c = 43 \<or> c = 45 \<or> c = 46"
  using assms
  by (auto simp: is_number_def number_text_def is_sign_def digits_def split: if_splits)

lemma number_last:
  assumes "is_number t"
  shows "t \<noteq> [] \<and> is_digit (last t)"
  using assms
  by (auto simp: is_number_def number_text_def digits_def split: if_splits)

lemma spaces_no_digit: "spaces w \<Longrightarrow> \<forall>c\<in>set w. \<not> is_digit c"
  using digit_not_space unfolding spaces_def by blast

lemma pct_no_digit: "is_pct p \<Longrightarrow> \<forall>c\<in>set p. \<not> is_digit c"
  by (auto simp: is_pct_def)

lemma tail_no_digit:
  assumes "is_tail u"
  shows "\<forall>c\<in>set u. \<not> is_digit c"
proof -
  from assms obtain w1 p w2 where "u = w1 @ p @ w2" "spaces w1" "is_pct p" "spaces w2"
    unfolding is_tail_def by blast
  then show ?thesis
    using spaces_no_digit [of w1] spaces_no_digit [of w2] pct_no_digit [of p] by auto
qed

lemma ptail_no_digit:
  assumes "is_ptail u"
  shows "\<forall>c\<in>set u. \<not> is_digit c"
proof -
  from assms obtain w1 p w2 where "u = w1 @ p @ 41 # w2" "spaces w1" "is_pct p" "spaces w2"
    unfolding is_ptail_def by blast
  then show ?thesis
    using spaces_no_digit [of w1] spaces_no_digit [of w2] pct_no_digit [of p] by auto
qed

lemma same_split:
  assumes e: "a @ u = b @ v" and "a \<noteq> []" "b \<noteq> []"
    and "is_digit (last a)" "is_digit (last b)"
    and "\<forall>c\<in>set u. \<not> is_digit c" "\<forall>c\<in>set v. \<not> is_digit c"
  shows "a = b \<and> u = v"
proof -
  from e obtain w where "(a = b @ w \<and> w @ u = v) \<or> (a @ w = b \<and> u = w @ v)"
    by (auto simp: append_eq_append_conv2)
  then show ?thesis
  proof
    assume h: "a = b @ w \<and> w @ u = v"
    have "w = []"
    proof (rule ccontr)
      assume "w \<noteq> []"
      then have "last a = last w" "last w \<in> set v" using h by auto
      then show False using assms by auto
    qed
    then show ?thesis using h by simp
  next
    assume h: "a @ w = b \<and> u = w @ v"
    have "w = []"
    proof (rule ccontr)
      assume "w \<noteq> []"
      then have "last b = last w" "last w \<in> set u" using h by auto
      then show False using assms by auto
    qed
    then show ?thesis using h by simp
  qed
qed

subsection \<open>The search for the first match\<close>

lemma search_found:
  assumes "ms ic r (x, None) = st # sts"
    and "\<forall>q. q \<noteq> [] \<and> suffix q pre \<longrightarrow> ms ic r (q @ x, None) = []"
  shows "search ic r i (pre @ x) = Some (i + length pre, snd st)"
  using assms(2)
proof (induction pre arbitrary: i)
  case Nil
  show ?case using assms(1) by (cases x) simp_all
next
  case (Cons a pre)
  have "ms ic r ((a # pre) @ x, None) = []"
    using Cons.prems by blast
  moreover have "\<forall>q. q \<noteq> [] \<and> suffix q pre \<longrightarrow> ms ic r (q @ x, None) = []"
    using Cons.prems by (simp add: suffix_Cons)
  ultimately show ?case using Cons.IH [of "Suc i"] by simp
qed

lemma search_none:
  assumes "\<forall>q. suffix q s \<longrightarrow> ms ic r (q, None) = []"
  shows "search ic r i s = None"
  using assms
proof (induction s arbitrary: i)
  case Nil
  then show ?case by simp
next
  case (Cons a s)
  have "ms ic r (a # s, None) = []" using Cons.prems by blast
  moreover have "\<forall>q. suffix q s \<longrightarrow> ms ic r (q, None) = []"
    using Cons.prems by (simp add: suffix_Cons)
  ultimately show ?case using Cons.IH [of "Suc i"] by simp
qed

subsection \<open>Rounding to a double\<close>

text \<open>
  \<open>ilog2\<close> is the binary exponent, and a rational that is a double already (a
  significand below \<open>2 ^ 53\<close> times a power of two from \<open>2 ^ - 1074\<close> on, below
  \<open>2 ^ 1024\<close>) is its own Number value. In general \<open>nearest_double q\<close> is a significand
  of at most \<open>2 ^ 53\<close> times the unit \<open>2 ^ max (ilog2 q - 52) (- 1074)\<close>, at most half a
  unit away from \<open>q\<close>; everything from \<open>2 ^ 1024\<close> on is an infinity and everything up to
  \<open>2 ^ - 1075\<close> is zero.
\<close>

lemma ilog2_lower:
  assumes "0 < q"
  shows "2 powi (ilog2 q) \<le> q"
proof (cases "1 \<le> q")
  case True
  then have f: "0 < \<lfloor>q\<rfloor>" by simp
  then have b: "1 \<le> bitlen \<lfloor>q\<rfloor>" by (simp add: bitlen_alt_def)
  have "2 ^ nat (bitlen \<lfloor>q\<rfloor> - 1) \<le> \<lfloor>q\<rfloor>" using bitlen_bounds [OF f] by simp
  then have "(of_int (2 ^ nat (bitlen \<lfloor>q\<rfloor> - 1)) :: rat) \<le> of_int \<lfloor>q\<rfloor>"
    by (simp only: of_int_le_iff)
  also have "\<dots> \<le> q" by simp
  finally have "(2 :: rat) ^ nat (bitlen \<lfloor>q\<rfloor> - 1) \<le> q" by simp
  moreover have "2 powi (ilog2 q) = (2 :: rat) ^ nat (bitlen \<lfloor>q\<rfloor> - 1)"
    using True b by (simp add: ilog2_def power_int_def)
  ultimately show ?thesis by simp
next
  case False
  let ?r = "1 / q"
  let ?n = "\<lceil>?r\<rceil> - 1"
  have r: "1 < ?r" using assms False by simp
  then have n: "0 < ?n" by (simp add: less_ceiling_iff)
  have "?n < 2 ^ nat (bitlen ?n)" using bitlen_bounds [OF n] by simp
  then have "\<lceil>?r\<rceil> \<le> 2 ^ nat (bitlen ?n)" by simp
  then have "?r \<le> of_int (2 ^ nat (bitlen ?n))" by (simp only: ceiling_le_iff)
  then have "?r \<le> 2 ^ nat (bitlen ?n)" by simp
  then have "1 / 2 ^ nat (bitlen ?n) \<le> q"
    using assms by (simp add: field_simps)
  moreover have "2 powi (ilog2 q) = 1 / (2 :: rat) ^ nat (bitlen ?n)"
    using False bitlen_nonneg [of ?n]
    by (simp add: ilog2_def power_int_def field_simps)
  ultimately show ?thesis by simp
qed

lemma ilog2_upper:
  assumes "0 < q"
  shows "q < 2 powi (ilog2 q + 1)"
proof (cases "1 \<le> q")
  case True
  then have f: "0 < \<lfloor>q\<rfloor>" by simp
  then have b: "1 \<le> bitlen \<lfloor>q\<rfloor>" by (simp add: bitlen_alt_def)
  have "\<lfloor>q\<rfloor> < 2 ^ nat (bitlen \<lfloor>q\<rfloor>)" using bitlen_bounds [OF f] by simp
  then have "q < of_int (2 ^ nat (bitlen \<lfloor>q\<rfloor>))" by (simp only: floor_less_iff)
  then have "q < 2 ^ nat (bitlen \<lfloor>q\<rfloor>)" by simp
  moreover have "2 powi (ilog2 q + 1) = (2 :: rat) ^ nat (bitlen \<lfloor>q\<rfloor>)"
    using True b by (simp add: ilog2_def power_int_def)
  ultimately show ?thesis by simp
next
  case False
  let ?r = "1 / q"
  let ?n = "\<lceil>?r\<rceil> - 1"
  have r: "1 < ?r" using assms False by simp
  then have n: "0 < ?n" by (simp add: less_ceiling_iff)
  then have b: "1 \<le> bitlen ?n" by (simp add: bitlen_alt_def)
  have "2 ^ nat (bitlen ?n - 1) \<le> ?n" using bitlen_bounds [OF n] by simp
  then have "2 ^ nat (bitlen ?n - 1) < \<lceil>?r\<rceil>" by simp
  then have "of_int (2 ^ nat (bitlen ?n - 1)) < ?r" by (simp only: less_ceiling_iff)
  then have "2 ^ nat (bitlen ?n - 1) < ?r" by simp
  then have "q < 1 / 2 ^ nat (bitlen ?n - 1)"
    using assms by (simp add: field_simps)
  moreover have "2 powi (ilog2 q + 1) = 1 / (2 :: rat) ^ nat (bitlen ?n - 1)"
  proof -
    have e: "ilog2 q + 1 = - (bitlen ?n - 1)" using False by (simp add: ilog2_def)
    have "0 \<le> bitlen ?n - 1" using b by simp
    then have "(2 :: rat) powi (bitlen ?n - 1) = 2 ^ nat (bitlen ?n - 1)"
      by (simp only: power_int_def if_True)
    then show ?thesis
      unfolding e power_int_minus by (simp add: field_simps)
  qed
  ultimately show ?thesis by simp
qed

lemma round_even_of_int [simp]: "round_even (of_int n) = n"
  by (simp add: round_even_def)

lemma nearest_double_exact:
  assumes q: "q = of_int m * 2 powi k" and m: "0 < m" "m < 2 ^ 53" and k: "- 1074 \<le> k"
  shows "nearest_double q = q"
proof -
  have q0: "0 < q" using q m by simp
  define e where "e = max (ilog2 q - 52) (- 1074)"
  have "2 powi (ilog2 q) \<le> q" by (rule ilog2_lower [OF q0])
  also have "q < 2 ^ 53 * 2 powi k"
  proof -
    have "(of_int m :: rat) < of_int (2 ^ 53)" using m by (simp only: of_int_less_iff)
    then show ?thesis unfolding q by simp
  qed
  also have "(2 :: rat) ^ 53 * 2 powi k = 2 powi (53 + k)"
    by (simp add: power_int_add)
  finally have lt: "(2 :: rat) powi (ilog2 q) < 2 powi (53 + k)" .
  have "ilog2 q < 53 + k"
  proof (rule ccontr)
    assume "\<not> ilog2 q < 53 + k"
    then have "53 + k \<le> ilog2 q" by simp
    then have "(2 :: rat) powi (53 + k) \<le> 2 powi (ilog2 q)"
      by (rule power_int_increasing) simp
    then show False using lt by simp
  qed
  then have ek: "e \<le> k" using k by (simp add: e_def)
  have "q / 2 powi e = of_int m * 2 powi (k - e)"
    unfolding q by (simp add: power_int_diff)
  also have "2 powi (k - e) = (of_int (2 ^ nat (k - e)) :: rat)"
    using ek by (simp add: power_int_def)
  finally have "q / 2 powi e = of_int (m * 2 ^ nat (k - e))" by simp
  then have "of_int (round_even (q / 2 powi e)) * 2 powi e = q / 2 powi e * 2 powi e"
    by (simp only: round_even_of_int)
  then show ?thesis
    unfolding nearest_double_def Let_def e_def [symmetric] by simp
qed

lemma to_number_exact:
  assumes "\<bar>x\<bar> = of_int m * 2 powi k" and "0 < m" "m < 2 ^ 53" and "- 1074 \<le> k"
    and "\<bar>x\<bar> < 2 ^ 1024"
  shows "to_number x = Finite x"
proof -
  have "nearest_double \<bar>x\<bar> = \<bar>x\<bar>" by (rule nearest_double_exact [OF assms(1-4)])
  moreover have "x \<noteq> 0" using assms(1,2) by auto
  ultimately show ?thesis using assms(5) by (auto simp: to_number_def Let_def)
qed

lemma floor_rat_numeral: "\<lfloor>numeral a / numeral b :: rat\<rfloor> = numeral a div numeral b"
  by (metis floor_divide_of_int_eq of_int_numeral)

lemma round_even_cases: "round_even x = \<lfloor>x\<rfloor> \<or> round_even x = \<lfloor>x\<rfloor> + 1"
  by (simp add: round_even_def Let_def)

lemma round_even_error: "\<bar>of_int (round_even x) - x\<bar> \<le> 1 / 2"
proof -
  have "of_int \<lfloor>x\<rfloor> \<le> x" "x < of_int \<lfloor>x\<rfloor> + 1" by linarith+
  then show ?thesis by (auto simp: round_even_def Let_def)
qed

lemma round_even_lower:
  assumes "of_int n \<le> x"
  shows "n \<le> round_even x"
proof -
  have "n \<le> \<lfloor>x\<rfloor>" using assms by (simp add: le_floor_iff)
  then show ?thesis using round_even_cases [of x] by auto
qed

lemma nearest_double_error:
  "\<bar>nearest_double q - q\<bar> \<le> 2 powi (max (ilog2 q - 52) (- 1074)) / 2"
proof -
  let ?e = "max (ilog2 q - 52) (- 1074)"
  have p: "(0 :: rat) < 2 powi ?e" by simp
  have "nearest_double q - q = (of_int (round_even (q / 2 powi ?e)) - q / 2 powi ?e) * 2 powi ?e"
    using p by (simp add: nearest_double_def Let_def field_simps)
  then have "\<bar>nearest_double q - q\<bar> = \<bar>of_int (round_even (q / 2 powi ?e)) - q / 2 powi ?e\<bar> * 2 powi ?e"
    using p by (simp add: abs_mult)
  also have "\<dots> \<le> (1 / 2) * 2 powi ?e"
    using round_even_error [of "q / 2 powi ?e"] p by (intro mult_right_mono) simp_all
  finally show ?thesis by simp
qed

lemma to_number_overflow:
  assumes "2 ^ 1024 \<le> x"
  shows "to_number x = PosInfinity"
proof -
  have x: "0 < x" using assms by (rule less_le_trans [rotated]) simp
  let ?L = "ilog2 x"
  let ?e = "max (?L - 52) (- 1074)"
  have "(2 :: rat) powi 1024 \<le> x" using assms by (simp add: power_int_def)
  also have "x < 2 powi (?L + 1)" by (rule ilog2_upper [OF x])
  finally have lt: "(2 :: rat) powi 1024 < 2 powi (?L + 1)" .
  have L: "1024 \<le> ?L"
  proof (rule ccontr)
    assume "\<not> 1024 \<le> ?L"
    then have "?L + 1 \<le> 1024" by simp
    then have "(2 :: rat) powi (?L + 1) \<le> 2 powi 1024" by (rule power_int_increasing) simp
    then show False using lt by simp
  qed
  then have e: "?e = ?L - 52" by simp
  have m: "(2 :: rat) powi 52 * 2 powi ?e = 2 powi ?L"
    unfolding e using power_int_add [of "2 :: rat" 52 "?L - 52"] by simp
  then have d: "(2 :: rat) powi ?L / 2 powi ?e = 2 powi 52" by (simp add: field_simps)
  have "(2 :: rat) powi 52 \<le> x / 2 powi ?e"
    unfolding d [symmetric] using ilog2_lower [OF x] by (simp add: divide_right_mono)
  then have "of_int (2 ^ 52) \<le> x / 2 powi ?e" by (simp add: power_int_def)
  then have r: "2 ^ 52 \<le> round_even (x / 2 powi ?e)" by (rule round_even_lower)
  have "(2 :: rat) ^ 1024 = 2 powi 1024" by (simp add: power_int_def)
  also have "\<dots> \<le> 2 powi ?L" using L by (intro power_int_increasing) simp_all
  also have "\<dots> = of_int (2 ^ 52) * 2 powi ?e"
    using m by (simp add: power_int_def [of _ 52])
  also have "\<dots> \<le> of_int (round_even (x / 2 powi ?e)) * 2 powi ?e"
    using r by (intro mult_right_mono) (simp_all only: of_int_le_iff, simp)
  finally have "2 ^ 1024 \<le> nearest_double x" by (simp add: nearest_double_def Let_def)
  then show ?thesis using x by (simp add: to_number_def Let_def)
qed

lemma to_number_underflow:
  assumes "\<bar>x\<bar> \<le> 2 powi (- 1075)"
  shows "to_number x = Finite 0"
proof (cases "x = 0")
  case True
  then show ?thesis by (simp add: to_number_def)
next
  case False
  let ?q = "\<bar>x\<bar>"
  have q: "0 < ?q" using False by simp
  let ?L = "ilog2 ?q"
  have "2 powi ?L \<le> ?q" by (rule ilog2_lower [OF q])
  also have "?q \<le> 2 powi (- 1075)" by (rule assms)
  finally have le: "(2 :: rat) powi ?L \<le> 2 powi (- 1075)" .
  have "?L \<le> - 1075"
  proof (rule ccontr)
    assume "\<not> ?L \<le> - 1075"
    then have "- 1075 < ?L" by simp
    then have "(2 :: rat) powi (- 1075) < 2 powi ?L" by (rule power_int_strict_increasing) simp
    then show False using le by simp
  qed
  then have e: "max (?L - 52) (- 1074) = - 1074" by simp
  have "?q / 2 powi (- 1074) \<le> 2 powi (- 1075) / 2 powi (- 1074)"
    using assms by (intro divide_right_mono) simp_all
  also have "\<dots> = 1 / 2" by (simp add: power_int_def field_simps)
  finally have h: "?q / 2 powi (- 1074) \<le> 1 / 2" .
  have p: "0 \<le> ?q / 2 powi (- 1074)" by simp
  have f: "\<lfloor>?q / 2 powi (- 1074)\<rfloor> = 0" using h p by (simp add: floor_eq_iff)
  have "round_even (?q / 2 powi (- 1074)) = 0"
    using h unfolding round_even_def Let_def f by auto
  then have "nearest_double ?q = 0" unfolding nearest_double_def Let_def e by simp
  then show ?thesis using False by (simp add: to_number_def Let_def)
qed

lemma round_even_upper:
  assumes "x \<le> of_int n"
  shows "round_even x \<le> n"
proof (cases "x = of_int n")
  case True
  then show ?thesis by simp
next
  case False
  then have "x < of_int n" using assms by simp
  then have "\<lfloor>x\<rfloor> < n" by (simp add: floor_less_iff)
  then show ?thesis using round_even_cases [of x] by auto
qed

lemma nearest_double_significand:
  assumes "0 < q"
  shows "round_even (q / 2 powi (max (ilog2 q - 52) (- 1074))) \<le> 2 ^ 53"
proof -
  let ?e = "max (ilog2 q - 52) (- 1074)"
  have "q < 2 powi (ilog2 q + 1)" by (rule ilog2_upper [OF assms])
  also have "\<dots> \<le> 2 powi (?e + 53)" by (rule power_int_increasing) simp_all
  also have "\<dots> = 2 powi ?e * 2 powi 53" by (rule power_int_add) simp
  finally have "q / 2 powi ?e < 2 powi 53" by (simp add: field_simps)
  then have "q / 2 powi ?e \<le> of_int (2 ^ 53)" by (simp add: power_int_def)
  then show ?thesis by (rule round_even_upper)
qed

subsection \<open>parseFloat on a number\<close>

lemma parseFloat_unsigned:
  assumes d: "digits ip" and f: "\<forall>c\<in>set fp. is_digit c"
  shows "takeWhile is_digit (ip @ (if fp = [] then [] else 46 # fp)) = ip"
    and "dropWhile is_digit (ip @ (if fp = [] then [] else 46 # fp)) =
           (if fp = [] then [] else 46 # fp)"
    and "(case (if fp = [] then [] else 46 # fp) of [] \<Rightarrow> []
          | c # cs \<Rightarrow> if c = 46 then takeWhile is_digit cs else []) = fp"
proof -
  have n: "\<not> is_digit 46" by (simp add: is_digit_def)
  have a: "\<forall>c\<in>set ip. is_digit c" using d by (simp add: digits_def)
  show "takeWhile is_digit (ip @ (if fp = [] then [] else 46 # fp)) = ip"
    using a n by (simp add: takeWhile_append2)
  show "dropWhile is_digit (ip @ (if fp = [] then [] else 46 # fp)) =
           (if fp = [] then [] else 46 # fp)"
    using a n by (simp add: dropWhile_append2)
  show "(case (if fp = [] then [] else 46 # fp) of [] \<Rightarrow> []
          | c # cs \<Rightarrow> if c = 46 then takeWhile is_digit cs else []) = fp"
    using f by (simp add: takeWhile_eq_all_conv)
qed

lemma parseFloat_number:
  assumes s: "is_sign sg" and d: "digits ip" and f: "\<forall>c\<in>set fp. is_digit c"
  shows "parseFloat (number_text sg ip fp) = Some (to_number (number_value sg ip fp))"
proof -
  let ?body = "ip @ (if fp = [] then [] else 46 # fp)"
  let ?T = "number_text sg ip fp"
  obtain c cs where ip: "ip = c # cs" and c: "is_digit c"
    using d by (cases ip) (auto simp: digits_def)
  have c1: "\<not> is_space c" "c \<noteq> 45" "c \<noteq> 43"
    using c by (auto simp: is_digit_def is_space_def)
  have sp: "\<not> is_space 45" "\<not> is_space 43" by (simp_all add: is_space_def)
  have sgs: "sg = [] \<or> sg = [45] \<or> sg = [43]" using s by (simp add: is_sign_def)
  have t: "dropWhile is_space ?T = ?T"
    using sgs c1 sp ip by (auto simp: number_text_def)
  have neg: "(case ?T of [] \<Rightarrow> False | x # xs \<Rightarrow> x = 45) = (sg = [45])"
    using sgs c1 ip by (auto simp: number_text_def)
  have u: "(case ?T of [] \<Rightarrow> [] | x # xs \<Rightarrow> if x = 45 \<or> x = 43 then xs else ?T) = ?body"
    using sgs c1 ip by (auto simp: number_text_def)
  have ne: "ip \<noteq> []" using ip by simp
  show ?thesis
    unfolding parseFloat_def Let_def t neg u parseFloat_unsigned [OF d f]
    using ne by (simp add: number_value_def)
qed

lemma weight_of_number:
  assumes "is_sign sg" and "digits ip" and "\<forall>c\<in>set fp. is_digit c"
  shows "weight_of (Some (number_text sg ip fp)) = to_number (number_value sg ip fp)"
  using parseFloat_number [OF assms] by (simp add: weight_of_def)

lemma not_space_simps [simp]: "\<not> is_space 37" "\<not> is_space 40" "\<not> is_space 41"
  by (simp_all add: is_space_def)

lemma ptail_no_open:
  assumes "is_ptail u"
  shows "40 \<notin> set u"
proof -
  from assms obtain w1 p w2 where "u = w1 @ p @ 41 # w2" "spaces w1" "is_pct p" "spaces w2"
    unfolding is_ptail_def by blast
  then show ?thesis by (auto simp: spaces_def is_pct_def)
qed

lemma tail_no_close:
  assumes "is_tail u"
  shows "41 \<notin> set u"
proof -
  from assms obtain w1 p w2 where "u = w1 @ p @ w2" "spaces w1" "is_pct p" "spaces w2"
    unfolding is_tail_def by blast
  then show ?thesis by (auto simp: spaces_def is_pct_def)
qed

lemma ptail_has_close: "is_ptail u \<Longrightarrow> 41 \<in> set u"
  by (auto simp: is_ptail_def)

lemma number_no_open: "is_number t \<Longrightarrow> 40 \<notin> set t"
  using number_chars [of t] by (auto simp: is_digit_def)

lemma paren_match:
  assumes t: "is_number t" and u: "is_ptail u"
  shows "str_match paren_re (pre @ 40 # t @ u) = Some (length pre, Some t)"
proof -
  let ?x = "40 # t @ u"
  have "([], Some t) \<in> set (ms False paren_re (?x, None))"
    using t u unfolding in_ms_paren by blast
  then obtain st sts where m: "ms False paren_re (?x, None) = st # sts"
    by (cases "ms False paren_re (?x, None)") auto
  then have "st \<in> set (ms False paren_re (?x, None))" by simp
  then obtain t' u' where e: "?x = 40 # t' @ u'" "is_number t'" "is_ptail u'"
    and st: "snd st = Some t'"
    using in_ms_paren [of "fst st" "snd st" ?x None] by auto
  have "t' = t"
    using same_split [of t' u' t u] e t u number_last ptail_no_digit by auto
  then have cap: "snd st = Some t" using st by simp
  have "\<forall>q. q \<noteq> [] \<and> suffix q pre \<longrightarrow> ms False paren_re (q @ ?x, None) = []"
  proof (intro allI impI)
    fix q :: jsstring
    assume q: "q \<noteq> [] \<and> suffix q pre"
    show "ms False paren_re (q @ ?x, None) = []"
    proof (rule ccontr)
      assume "ms False paren_re (q @ ?x, None) \<noteq> []"
      then obtain y where "y \<in> set (ms False paren_re (q @ ?x, None))"
        by (cases "ms False paren_re (q @ ?x, None)") auto
      then obtain t2 u2 where e2: "q @ ?x = 40 # t2 @ u2" "is_number t2" "is_ptail u2"
        using in_ms_paren [of "fst y" "snd y" "q @ ?x" None] by auto
      obtain c q' where "q = c # q'" using q by (cases q) auto
      then have "q' @ ?x = t2 @ u2" using e2 by simp
      then have "40 \<in> set (t2 @ u2)" by (metis in_set_conv_decomp)
      then show False
        using number_no_open [OF e2(2)] ptail_no_open [OF e2(3)] by auto
    qed
  qed
  from search_found [OF m this, of 0] cap show ?thesis
    by (simp add: str_match_def)
qed

lemma no_paren_match:
  assumes "\<not> paren_annotation s"
  shows "str_match paren_re s = None"
  unfolding str_match_def
proof (rule search_none, intro allI impI)
  fix q :: jsstring
  assume q: "suffix q s"
  show "ms False paren_re (q, None) = []"
  proof (rule ccontr)
    assume "ms False paren_re (q, None) \<noteq> []"
    then obtain y where "y \<in> set (ms False paren_re (q, None))"
      by (cases "ms False paren_re (q, None)") auto
    then obtain t u where "q = 40 # t @ u" "is_number t" "is_ptail u"
      using in_ms_paren [of "fst y" "snd y" q None] by auto
    moreover obtain pre where "s = pre @ q" using q by (auto simp: suffix_def)
    ultimately have "paren_annotation s" unfolding paren_annotation_def by blast
    then show False using assms by simp
  qed
qed

lemma no_signed_match:
  assumes "\<not> bare_annotation s"
  shows "str_match signed_re s = None"
  unfolding str_match_def
proof (rule search_none, intro allI impI)
  fix q :: jsstring
  assume q: "suffix q s"
  show "ms False signed_re (q, None) = []"
  proof (rule ccontr)
    assume "ms False signed_re (q, None) \<noteq> []"
    then obtain y where "y \<in> set (ms False signed_re (q, None))"
      by (cases "ms False signed_re (q, None)") auto
    then obtain t u where "q = t @ u" "is_number t" "is_tail u"
      using in_ms_signed [of "fst y" "snd y" q None] by auto
    moreover obtain pre where "s = pre @ q" using q by (auto simp: suffix_def)
    ultimately have "bare_annotation s" unfolding bare_annotation_def by blast
    then show False using assms by simp
  qed
qed

lemma signed_match:
  assumes t: "is_number t" and u: "is_tail u" and l: "longest_number pre t"
  shows "str_match signed_re (pre @ t @ u) = Some (length pre, Some t)"
proof -
  let ?x = "t @ u"
  have "([], Some t) \<in> set (ms False signed_re (?x, None))"
    using t u unfolding in_ms_signed by blast
  then obtain st sts where m: "ms False signed_re (?x, None) = st # sts"
    by (cases "ms False signed_re (?x, None)") auto
  then have "st \<in> set (ms False signed_re (?x, None))" by simp
  then obtain t' u' where e: "?x = t' @ u'" "is_number t'" "is_tail u'"
    and st: "snd st = Some t'"
    using in_ms_signed [of "fst st" "snd st" ?x None] by auto
  have "t' = t"
    using same_split [of t' u' t u] e t u number_last tail_no_digit by auto
  then have cap: "snd st = Some t" using st by simp
  have "\<forall>q. q \<noteq> [] \<and> suffix q pre \<longrightarrow> ms False signed_re (q @ ?x, None) = []"
  proof (intro allI impI)
    fix q :: jsstring
    assume q: "q \<noteq> [] \<and> suffix q pre"
    show "ms False signed_re (q @ ?x, None) = []"
    proof (rule ccontr)
      assume "ms False signed_re (q @ ?x, None) \<noteq> []"
      then obtain y where "y \<in> set (ms False signed_re (q @ ?x, None))"
        by (cases "ms False signed_re (q @ ?x, None)") auto
      then obtain t2 u2 where e2: "q @ ?x = t2 @ u2" "is_number t2" "is_tail u2"
        using in_ms_signed [of "fst y" "snd y" "q @ ?x" None] by auto
      have "q @ t \<noteq> []" "is_digit (last (q @ t))" using number_last [OF t] by auto
      moreover have "(q @ t) @ u = t2 @ u2" using e2 by simp
      ultimately have "q @ t = t2"
        using same_split [of "q @ t" u t2 u2] number_last [OF e2(2)]
          tail_no_digit [OF u] tail_no_digit [OF e2(3)] by blast
      then have "is_number (q @ t)" using e2 by simp
      then show False using l q unfolding longest_number_def by blast
    qed
  qed
  from search_found [OF m this, of 0] cap show ?thesis
    by (simp add: str_match_def)
qed

lemma bare_not_paren:
  assumes "bare_annotation s"
  shows "\<not> paren_annotation s"
proof
  assume "paren_annotation s"
  then obtain pre' t' u' where p: "s = pre' @ 40 # t' @ u'" "is_number t'" "is_ptail u'"
    unfolding paren_annotation_def by blast
  from assms obtain pre t u where b: "s = pre @ t @ u" "is_number t" "is_tail u"
    unfolding bare_annotation_def by blast
  have "(pre @ t) @ u = (pre' @ 40 # t') @ u'" using p b by simp
  moreover have "pre @ t \<noteq> []" "is_digit (last (pre @ t))" using number_last [OF b(2)] by auto
  moreover have "pre' @ 40 # t' \<noteq> []" "is_digit (last (pre' @ 40 # t'))"
    using number_last [OF p(2)] by auto
  ultimately have "u = u'"
    using same_split [of "pre @ t" u "pre' @ 40 # t'" u'] tail_no_digit [OF b(3)]
      ptail_no_digit [OF p(3)] by blast
  then show False using tail_no_close [OF b(3)] ptail_has_close [OF p(3)] by simp
qed

lemma number_textI:
  "is_sign sg \<Longrightarrow> digits ip \<Longrightarrow> \<forall>c\<in>set fp. is_digit c \<Longrightarrow> is_number (number_text sg ip fp)"
  unfolding is_number_def by blast

lemma tailI: "spaces w1 \<Longrightarrow> is_pct p \<Longrightarrow> spaces w2 \<Longrightarrow> is_tail (w1 @ p @ w2)"
  unfolding is_tail_def by blast

lemma ptailI: "spaces w1 \<Longrightarrow> is_pct p \<Longrightarrow> spaces w2 \<Longrightarrow> is_ptail (w1 @ p @ 41 # w2)"
  unfolding is_ptail_def by blast

lemma longest_number_after:
  assumes "pre = [] \<or> (\<not> is_digit (last pre) \<and> last pre \<noteq> 43 \<and> last pre \<noteq> 45 \<and> last pre \<noteq> 46)"
  shows "longest_number pre t"
  unfolding longest_number_def
proof (intro allI impI notI)
  fix q :: jsstring
  assume q: "q \<noteq> [] \<and> suffix q pre" and n: "is_number (q @ t)"
  then have "last q = last pre" "pre \<noteq> []" by (auto simp: suffix_def)
  moreover have "last q \<in> set (q @ t)" using q by simp
  ultimately show False using number_chars [OF n] assms by auto
qed

lemma bare_annotation_last:
  assumes "bare_annotation s"
  shows "s \<noteq> [] \<and> (is_digit (last s) \<or> is_space (last s) \<or> last s = 37)"
proof -
  from assms obtain pre t w1 p w2 where s: "s = pre @ t @ w1 @ p @ w2" and t: "is_number t"
    and w: "spaces w1" "is_pct p" "spaces w2"
    unfolding bare_annotation_def is_tail_def by blast
  have tn: "t \<noteq> []" "is_digit (last t)" using number_last [OF t] by auto
  show ?thesis
  proof (cases "w2 = []")
    case False
    then show ?thesis using s w by (auto simp: spaces_def)
  next
    case True
    show ?thesis
    proof (cases "p = []")
      case False
      then show ?thesis using s w True by (auto simp: is_pct_def)
    next
      case p: True
      show ?thesis
      proof (cases "w1 = []")
        case False
        then show ?thesis using s w True p by (auto simp: spaces_def)
      next
        case w1: True
        then show ?thesis using s tn True p by simp
      qed
    qed
  qed
qed

lemma paren_annotation_last:
  assumes "paren_annotation s"
  shows "s \<noteq> [] \<and> (last s = 41 \<or> is_space (last s))"
proof -
  from assms obtain pre t w1 p w2 where s: "s = pre @ 40 # t @ w1 @ p @ 41 # w2"
    and w: "spaces w2"
    unfolding paren_annotation_def is_ptail_def by auto
  show ?thesis
  proof (cases "w2 = []")
    case False
    then show ?thesis using s w by (auto simp: spaces_def)
  next
    case True
    then show ?thesis using s by simp
  qed
qed

text \<open>
  Every string with a bare annotation splits into a prefix, the longest number ending
  before the tail, and the tail.
\<close>

lemma bare_annotation_longest:
  assumes "bare_annotation s"
  shows "\<exists>pre sg ip fp w1 p w2.
           s = pre @ number_text sg ip fp @ w1 @ p @ w2 \<and>
           is_sign sg \<and> digits ip \<and> (\<forall>c\<in>set fp. is_digit c) \<and>
           spaces w1 \<and> is_pct p \<and> spaces w2 \<and>
           longest_number pre (number_text sg ip fp)"
proof -
  let ?P = "\<lambda>n. \<exists>pre t u. s = pre @ t @ u \<and> is_number t \<and> is_tail u \<and> length pre = n"
  define n where "n = (LEAST n. ?P n)"
  have ex: "\<exists>n. ?P n" using assms unfolding bare_annotation_def by blast
  have Pn: "?P n" unfolding n_def using ex by (rule LeastI_ex)
  have least: "n \<le> m" if "?P m" for m unfolding n_def using that by (rule Least_le)
  from Pn obtain pre t u where s: "s = pre @ t @ u" and t: "is_number t" and u: "is_tail u"
    and l: "length pre = n" by blast
  have "longest_number pre t"
    unfolding longest_number_def
  proof (intro allI impI notI)
    fix q :: jsstring
    assume q: "q \<noteq> [] \<and> suffix q pre" and nq: "is_number (q @ t)"
    then obtain pre' where p: "pre = pre' @ q" by (auto simp: suffix_def)
    then have "s = pre' @ (q @ t) @ u" using s by simp
    then have "?P (length pre')" using nq u by blast
    then have "n \<le> length pre'" by (rule least)
    then show False using l p q by (cases q) auto
  qed
  moreover obtain sg ip fp where "t = number_text sg ip fp" "is_sign sg" "digits ip"
    "\<forall>c\<in>set fp. is_digit c"
    using t unfolding is_number_def by blast
  moreover obtain w1 p w2 where "u = w1 @ p @ w2" "spaces w1" "is_pct p" "spaces w2"
    using u unfolding is_tail_def by blast
  ultimately show ?thesis using s by blast
qed

subsection \<open>Trimming, and the end of an annotated string\<close>

lemma trim_spec: "trimming s (trim s)"
proof -
  let ?a = "takeWhile is_space s"
  let ?t = "dropWhile is_space s"
  let ?b' = "takeWhile is_space (rev ?t)"
  let ?r' = "dropWhile is_space (rev ?t)"
  have s: "s = ?a @ ?t" by simp
  have t: "?t = rev ?r' @ rev ?b'"
    by (metis rev_append rev_rev_ident takeWhile_dropWhile_id)
  have r: "trim s = rev ?r'" by (simp add: trim_def)
  have sa: "spaces ?a" by (auto simp: spaces_def dest: set_takeWhileD)
  have sb: "spaces (rev ?b')" by (auto simp: spaces_def dest: set_takeWhileD)
  have e: "s = ?a @ trim s @ rev ?b'" using s t r by simp
  have "trim s = [] \<or> (\<not> is_space (hd (trim s)) \<and> \<not> is_space (last (trim s)))"
  proof (cases "?r' = []")
    case True
    then show ?thesis using r by simp
  next
    case False
    then have l: "\<not> is_space (hd ?r')" by (rule hd_dropWhile)
    have "last (trim s) = hd ?r'" using r False by (simp add: last_rev)
    moreover have "?t \<noteq> []" using False by (metis dropWhile.simps(1) rev.simps(1))
    then have "\<not> is_space (hd ?t)" by (rule hd_dropWhile)
    moreover have "hd ?t = hd (trim s)" using t r False by (metis hd_append2 rev_is_Nil_conv)
    ultimately show ?thesis using l by simp
  qed
  then show ?thesis unfolding trimming_def using e sa sb by blast
qed

lemma paren_annotation_close:
  assumes "paren_annotation s"
  shows "\<exists>r. dropWhile is_space (rev s) = 41 # r"
proof -
  from assms obtain pre t w1 p w2 where s: "s = pre @ 40 # t @ w1 @ p @ 41 # w2"
    and w: "spaces w2"
    unfolding paren_annotation_def is_ptail_def by auto
  have "rev s = rev w2 @ 41 # rev (pre @ 40 # t @ w1 @ p)" using s by simp
  then have "dropWhile is_space (rev s) = dropWhile is_space (41 # rev (pre @ 40 # t @ w1 @ p))"
    using w by (simp add: dropWhile_append spaces_def)
  then show ?thesis by simp
qed

lemma bare_annotation_after_tail:
  assumes "bare_annotation s"
  shows "\<exists>c r. after_tail s = c # r \<and> is_digit c"
proof -
  from assms obtain pre t w1 p w2 where s: "s = pre @ t @ w1 @ p @ w2" and t: "is_number t"
    and w: "spaces w1" "is_pct p" "spaces w2"
    unfolding bare_annotation_def is_tail_def by blast
  obtain c r where tr: "rev t = c # r" and c: "is_digit c"
    using number_last [OF t] by (cases "rev t") (auto simp: last_rev)
  have ns: "\<not> is_space c" using c by (rule digit_not_space)
  have np: "c \<noteq> 37" using c by (auto simp: is_digit_def)
  let ?rest = "c # r @ rev pre"
  have "rev s = rev w2 @ (rev p @ rev w1 @ ?rest)" using s tr by simp
  then have 1: "dropWhile is_space (rev s) = dropWhile is_space (rev p @ rev w1 @ ?rest)"
    using w(3) by (simp add: dropWhile_append spaces_def)
  have 2: "dropWhile is_space (rev w1 @ ?rest) = ?rest"
    using w(1) ns by (simp add: dropWhile_append spaces_def)
  from w(2) consider "p = []" | "p = [37]" by (auto simp: is_pct_def)
  then have "after_tail s = ?rest"
  proof cases
    case 1
    then have "dropWhile is_space (rev s) = ?rest" using \<open>dropWhile is_space (rev s) = _\<close> 2 by simp
    then show ?thesis using ns np by (simp add: after_tail_def drop_pct_def)
  next
    case 2
    then have "dropWhile is_space (rev s) = 37 # rev w1 @ ?rest"
      using \<open>dropWhile is_space (rev s) = _\<close> by simp
    then show ?thesis
      using \<open>dropWhile is_space (rev w1 @ ?rest) = ?rest\<close>
      by (simp add: after_tail_def drop_pct_def)
  qed
  then show ?thesis using c by simp
qed

section \<open>The parser's claims\<close>

text \<open>
  Claim C2. Whatever precedes it, and earlier parenthesized numeric groups in particular,
  a parenthesized number at the very end of the string (with optional white space and
  percent sign inside, and optional white space after) is the one group consumed: the
  weight is its number, as the JavaScript Number \<open>parseFloat\<close> makes of it (the nearest
  double, an infinity when the number is too large), and the rule is all the text before
  it, trimmed: without the white space at its two ends. So
  \<open>"Mixed signals (+3.5) (-4.25)"\<close> gives rule \<open>"Mixed signals (+3.5)"\<close> and weight
  -4.25, and \<open>"(1.0000000000000001)"\<close> gives the empty rule and weight 1.
\<close>

theorem last_group_is_weight:
  assumes "is_sign sg" and "digits ip" and "\<forall>c\<in>set fp. is_digit c"
    and "spaces w1" and "is_pct p" and "spaces w2"
  shows "parseReasoningEntry (JStr (pre @ [40] @ number_text sg ip fp @ w1 @ p @ [41] @ w2)) =
           \<lparr>rule = trim pre, weight = to_number (number_value sg ip fp)\<rparr> \<and>
         trimming pre (trim pre)"
proof -
  have "str_match paren_re (pre @ 40 # number_text sg ip fp @ (w1 @ p @ 41 # w2)) =
          Some (length pre, Some (number_text sg ip fp))"
    by (rule paren_match [OF number_textI [OF assms(1-3)] ptailI [OF assms(4-6)]])
  then show ?thesis
    by (simp add: parseReasoningEntry_def typeof_string weight_of_number [OF assms(1-3)]
        trim_spec)
qed

theorem last_group_is_weight_witness:
  "(parseReasoningEntry (JStr (js ''Mixed signals (+3.5) (-4.25)'')) =
      \<lparr>rule = js ''Mixed signals (+3.5)'', weight = Finite (- 17 / 4)\<rparr> \<and>
    trimming (js ''Mixed signals (+3.5) '') (js ''Mixed signals (+3.5)'')) \<and>
   (parseReasoningEntry (JStr (js ''(1.0000000000000001)'')) = \<lparr>rule = [], weight = Finite 1\<rparr> \<and>
    trimming [] [])"
proof -
  have h: "is_sign (js ''-'')" "digits (js ''4'')" "\<forall>c\<in>set (js ''25''). is_digit c"
    "spaces []" "is_pct []"
    by (simp_all add: is_sign_def digits_def is_digit_def spaces_def is_pct_def js_def)
  have e: "js ''Mixed signals (+3.5) '' @ [40] @ number_text (js ''-'') (js ''4'') (js ''25'')
             @ [] @ [] @ [41] @ [] = js ''Mixed signals (+3.5) (-4.25)''"
    by (simp add: js_def number_text_def)
  have r: "trim (js ''Mixed signals (+3.5) '') = js ''Mixed signals (+3.5)''"
    by (simp add: trim_def is_space_def js_def)
  have v0: "number_value (js ''-'') (js ''4'') (js ''25'') = - 17 / 4"
    by (simp add: number_value_def digits_val_def js_def)
  have v: "to_number (number_value (js ''-'') (js ''4'') (js ''25'')) = Finite (- 17 / 4)"
    unfolding v0 by (rule to_number_exact [of _ 17 "- 2"]) simp_all
  have h': "is_sign []" "digits (js ''1'')" "\<forall>c\<in>set (js ''0000000000000001''). is_digit c"
    by (simp_all add: is_sign_def digits_def is_digit_def js_def)
  have e': "[] @ [40] @ number_text [] (js ''1'') (js ''0000000000000001'')
             @ [] @ [] @ [41] @ [] = js ''(1.0000000000000001)''"
    by (simp add: js_def number_text_def)
  have r': "trim [] = []" by (simp add: trim_def)
  have v0': "number_value [] (js ''1'') (js ''0000000000000001'') = 10000000000000001 / 10 ^ 16"
    by (simp add: number_value_def digits_val_def js_def)
  have v': "to_number (number_value [] (js ''1'') (js ''0000000000000001'')) = Finite 1"
    unfolding v0'
    by (simp add: to_number_def nearest_double_def ilog2_def round_even_def Let_def
        compute_bitlen floor_rat_numeral)
  show ?thesis
    using last_group_is_weight [OF h(1) h(2) h(3) h(4) h(5) h(4),
        of "js ''Mixed signals (+3.5) ''"]
      last_group_is_weight [OF h'(1) h'(2) h'(3) h(4) h(5) h(4), of "[]"]
    unfolding e r v e' r' v' by (rule conjI)
qed

text \<open>
  Claim C8. For every string that ends with an optionally signed decimal number,
  optional white space, an optional percent sign and optional white space (such a string
  has no trailing parenthesized group), the parser returns that number, taken as the
  longest number ending there and as the JavaScript Number \<open>parseFloat\<close> makes of it (the
  nearest double, an infinity when the number is too large), as the weight, and the text
  before it, trimmed (without the white space at its two ends), as the rule; by
  \<open>bare_annotation_longest\<close> every such string has this form. So
  \<open>"Loss of power -5.5%"\<close> gives rule \<open>"Loss of power"\<close> and weight -5.5, and
  \<open>"x 1.0000000000000001"\<close> gives rule \<open>"x"\<close> and weight 1.
\<close>

theorem trailing_number_is_weight:
  assumes "is_sign sg" and "digits ip" and "\<forall>c\<in>set fp. is_digit c"
    and "spaces w1" and "is_pct p" and "spaces w2"
    and "longest_number pre (number_text sg ip fp)"
  shows "parseReasoningEntry (JStr (pre @ number_text sg ip fp @ w1 @ p @ w2)) =
           \<lparr>rule = trim pre, weight = to_number (number_value sg ip fp)\<rparr> \<and>
         trimming pre (trim pre)"
proof -
  let ?t = "number_text sg ip fp"
  let ?u = "w1 @ p @ w2"
  have t: "is_number ?t" by (rule number_textI [OF assms(1-3)])
  have u: "is_tail ?u" by (rule tailI [OF assms(4-6)])
  have "bare_annotation (pre @ ?t @ ?u)" unfolding bare_annotation_def using t u by blast
  then have "str_match paren_re (pre @ ?t @ ?u) = None"
    using bare_not_paren no_paren_match by blast
  moreover have "str_match signed_re (pre @ ?t @ ?u) = Some (length pre, Some ?t)"
    by (rule signed_match [OF t u assms(7)])
  ultimately show ?thesis
    by (simp add: parseReasoningEntry_def typeof_string weight_of_number [OF assms(1-3)]
        trim_spec)
qed

theorem trailing_number_is_weight_witness:
  "(parseReasoningEntry (JStr (js ''Loss of power -5.5%'')) =
      \<lparr>rule = js ''Loss of power'', weight = Finite (- 11 / 2)\<rparr> \<and>
    trimming (js ''Loss of power '') (js ''Loss of power'')) \<and>
   (parseReasoningEntry (JStr (js ''x 1.0000000000000001'')) =
      \<lparr>rule = js ''x'', weight = Finite 1\<rparr> \<and>
    trimming (js ''x '') (js ''x''))"
proof -
  have h: "is_sign (js ''-'')" "digits (js ''5'')" "\<forall>c\<in>set (js ''5''). is_digit c"
    "spaces []" "is_pct (js ''%'')"
    by (simp_all add: is_sign_def digits_def is_digit_def spaces_def is_pct_def js_def)
  have l: "longest_number (js ''Loss of power '') (number_text (js ''-'') (js ''5'') (js ''5''))"
    by (rule longest_number_after) (simp add: js_def is_digit_def)
  have e: "js ''Loss of power '' @ number_text (js ''-'') (js ''5'') (js ''5'')
             @ [] @ js ''%'' @ [] = js ''Loss of power -5.5%''"
    by (simp add: js_def number_text_def)
  have r: "trim (js ''Loss of power '') = js ''Loss of power''"
    by (simp add: trim_def is_space_def js_def)
  have v0: "number_value (js ''-'') (js ''5'') (js ''5'') = - 11 / 2"
    by (simp add: number_value_def digits_val_def js_def)
  have v: "to_number (number_value (js ''-'') (js ''5'') (js ''5'')) = Finite (- 11 / 2)"
    unfolding v0 by (rule to_number_exact [of _ 11 "- 1"]) simp_all
  have h': "is_sign []" "digits (js ''1'')" "\<forall>c\<in>set (js ''0000000000000001''). is_digit c"
    "is_pct []"
    by (simp_all add: is_sign_def digits_def is_digit_def is_pct_def js_def)
  have l': "longest_number (js ''x '') (number_text [] (js ''1'') (js ''0000000000000001''))"
    by (rule longest_number_after) (simp add: js_def is_digit_def)
  have e': "js ''x '' @ number_text [] (js ''1'') (js ''0000000000000001'')
             @ [] @ [] @ [] = js ''x 1.0000000000000001''"
    by (simp add: js_def number_text_def)
  have r': "trim (js ''x '') = js ''x''"
    by (simp add: trim_def is_space_def js_def)
  have v0': "number_value [] (js ''1'') (js ''0000000000000001'') = 10000000000000001 / 10 ^ 16"
    by (simp add: number_value_def digits_val_def js_def)
  have v': "to_number (number_value [] (js ''1'') (js ''0000000000000001'')) = Finite 1"
    unfolding v0'
    by (simp add: to_number_def nearest_double_def ilog2_def round_even_def Let_def
        compute_bitlen floor_rat_numeral)
  show ?thesis
    using trailing_number_is_weight [OF h(1) h(2) h(3) h(4) h(5) h(4) l]
      trailing_number_is_weight [OF h'(1) h'(2) h'(3) h(4) h'(4) h(4) l']
    unfolding e r v e' r' v' by (rule conjI)
qed

text \<open>
  Claim C9. For every string that ends with neither form of numeric annotation (no
  trailing parenthesized number, no trailing bare number followed only by an optional
  percent sign and white space), the parser returns the whole trimmed string as the rule
  and weight 0, also when a numeral stands inside it; the trimmed string is the string
  without the white space at its two ends. So \<open>"Ruler of 7 houses"\<close> gives rule
  \<open>"Ruler of 7 houses"\<close> and weight 0, and so does \<open>"  Ruler of 7 houses "\<close>.
\<close>

theorem no_annotation_weight_zero:
  assumes "\<not> paren_annotation s" and "\<not> bare_annotation s"
  shows "parseReasoningEntry (JStr s) = \<lparr>rule = trim s, weight = Finite 0\<rparr> \<and>
         trimming s (trim s)"
  using no_paren_match [OF assms(1)] no_signed_match [OF assms(2)]
  by (simp add: parseReasoningEntry_def typeof_string trim_spec)

theorem no_annotation_weight_zero_witness:
  "(parseReasoningEntry (JStr (js ''Ruler of 7 houses'')) =
      \<lparr>rule = js ''Ruler of 7 houses'', weight = Finite 0\<rparr> \<and>
    trimming (js ''Ruler of 7 houses'') (js ''Ruler of 7 houses'')) \<and>
   (parseReasoningEntry (JStr (js ''  Ruler of 7 houses '')) =
      \<lparr>rule = js ''Ruler of 7 houses'', weight = Finite 0\<rparr> \<and>
    trimming (js ''  Ruler of 7 houses '') (js ''Ruler of 7 houses''))"
proof -
  have l: "last (js ''Ruler of 7 houses'') = 115" by (simp add: js_def)
  have a: "\<not> paren_annotation (js ''Ruler of 7 houses'')"
    using paren_annotation_last [of "js ''Ruler of 7 houses''"] unfolding l
    by (auto simp: is_space_def)
  have b: "\<not> bare_annotation (js ''Ruler of 7 houses'')"
    using bare_annotation_last [of "js ''Ruler of 7 houses''"] unfolding l
    by (auto simp: is_space_def is_digit_def)
  have r: "trim (js ''Ruler of 7 houses'') = js ''Ruler of 7 houses''"
    by (simp add: trim_def is_space_def js_def)
  have a': "\<not> paren_annotation (js ''  Ruler of 7 houses '')"
    using paren_annotation_close [of "js ''  Ruler of 7 houses ''"]
    by (auto simp: js_def is_space_def)
  have b': "\<not> bare_annotation (js ''  Ruler of 7 houses '')"
    using bare_annotation_after_tail [of "js ''  Ruler of 7 houses ''"]
    by (auto simp: after_tail_def drop_pct_def js_def is_space_def is_digit_def)
  have r': "trim (js ''  Ruler of 7 houses '') = js ''Ruler of 7 houses''"
    by (simp add: trim_def is_space_def js_def)
  show ?thesis
    using no_annotation_weight_zero [OF a b] no_annotation_weight_zero [OF a' b']
    unfolding r r' by (rule conjI)
qed

end
